theory Spec2Isabelle
  imports Main "HOL-Library.Word"
begin

section \<open>Range planning (\<open>download_segmented\<close>, the loop that builds \<open>ranges\<close>)\<close>

text \<open>
  The source builds the plan with a \<open>while pos < size\<close> loop over Python integers:
  \<^verbatim>\<open>
    ranges = []
    pos = 0
    while pos < size:
        end = min(size - 1, pos + chunk_size - 1)
        ranges.append((pos, end))
        pos = end + 1
  \<close>
  For \<open>chunk_size \<le> 0\<close> the cursor never advances and the loop does not end, so the
  loop is a partial function: \<open>None\<close> stands for a run that never returns.
\<close>

partial_function (option) plan_loop ::
  "int \<Rightarrow> int \<Rightarrow> int \<Rightarrow> (int \<times> int) list \<Rightarrow> (int \<times> int) list option" where
  "plan_loop sz chunk_size pos ranges =
     (if pos < sz
      then plan_loop sz chunk_size (min (sz - 1) (pos + chunk_size - 1) + 1)
             (ranges @ [(pos, min (sz - 1) (pos + chunk_size - 1))])
      else Some ranges)"

definition plan_ranges :: "int \<Rightarrow> int \<Rightarrow> (int \<times> int) list option" where
  "plan_ranges sz chunk_size = plan_loop sz chunk_size 0 []"

text \<open>What the claim asks of a plan: an ordered, gap-free, overlap-free cover of
  \<open>[0, size)\<close> by segments no longer than \<open>chunk_size\<close>.\<close>

fun chained :: "int \<Rightarrow> int \<Rightarrow> (int \<times> int) list \<Rightarrow> int \<Rightarrow> bool" where
  "chained cs pos [] stop = (pos = stop)"
| "chained cs pos ((s, e) # rs) stop =
     (s = pos \<and> s \<le> e \<and> e - s + 1 \<le> cs \<and> chained cs (e + 1) rs stop)"


section \<open>The segment fetcher (\<open>fetch_range\<close>)\<close>

type_synonym byte = "8 word"

text \<open>
  The server is the environment of \<open>fetch_range\<close>. One answer to one
  \<open>session.get\<close> is either an exception raised before any response arrives, or a
  response: its status, the start offset of its \<open>Content-Range\<close> header (the first group
  of the regular expression \<^verbatim>\<open>bytes\s+(\d+)-(\d+)/(\d+|\*)\<close>, \<open>None\<close> when the header
  is missing or does not match; \<^verbatim>\<open>\d+\<close> makes it a natural number), the chunks that
  \<open>iter_chunked\<close> yields, and the way the body stream ends.
\<close>

datatype body_end =
    EOF           \<comment> \<open>the stream ends, no exception\<close>
  | ReadTimeout   \<comment> \<open>\<open>asyncio.TimeoutError\<close> or \<open>aiohttp.ServerTimeoutError\<close> while reading\<close>
  | ReadError     \<comment> \<open>any other exception while reading (connection reset, payload error)\<close>

datatype response =
    ConnTimeout   \<comment> \<open>\<open>session.get\<close> raises a timeout\<close>
  | ConnError     \<comment> \<open>\<open>session.get\<close> raises another client error\<close>
  | Response int "nat option" "byte list list" body_end

text \<open>A server script: the k-th element answers the k-th request of one \<open>fetch_range\<close>
  call, as a function of the requested range \<^verbatim>\<open>bytes={pos}-{end}\<close>.\<close>

type_synonym server = "(int \<Rightarrow> int \<Rightarrow> response) list"

datatype error =
    TimeoutError
  | ClientError
  | ClientResponseError int    \<comment> \<open>\<open>raise_for_status\<close>, with the status\<close>
  | OSError                    \<comment> \<open>\<open>f.seek\<close> of a negative offset\<close>
  | RuntimeError int int       \<comment> \<open>range incomplete: got, need\<close>
  | IndexError
  | FileNotFoundError

datatype outcome = Returned | Raised error

text \<open>
  The state \<open>fetch_range\<close> acts on: the bytes of the output file (which exists:
  \<open>download_segmented\<close> creates it before any worker starts), the counter
  \<open>Progress.done\<close>, and two traces that record the effects in the order they happen:
  every \<open>f.seek(pos); f.write(data)\<close> and every \<open>asyncio.sleep(backoff)\<close>.
  The backoff is a Python float that only takes the values 1, 2, 4, 8 and 10, all exact,
  so it is modelled as an integer.
\<close>

record fstate =
  fdata :: "byte list"
  prog_done :: int
  writes :: "(int \<times> byte list) list"
  sleeps :: "int list"

text \<open>Writing at an offset past the end of the file fills the gap with zero bytes.\<close>

definition write_at :: "nat \<Rightarrow> byte list \<Rightarrow> byte list \<Rightarrow> byte list" where
  "write_at off data f =
     take off (f @ replicate (off - length f) 0) @ data @ drop (off + length data) f"

definition seek_write :: "int \<Rightarrow> byte list \<Rightarrow> fstate \<Rightarrow> fstate" where
  "seek_write pos data st =
     st\<lparr>fdata := write_at (nat pos) data (fdata st), writes := writes st @ [(pos, data)]\<rparr>"

definition prog_add :: "int \<Rightarrow> fstate \<Rightarrow> fstate" where
  "prog_add n st = st\<lparr>prog_done := prog_done st + n\<rparr>"

definition sleep :: "int \<Rightarrow> fstate \<Rightarrow> fstate" where
  "sleep t st = st\<lparr>sleeps := sleeps st @ [t]\<rparr>"

text \<open>
  Lines 136-143: only a 206 response with a matching \<open>Content-Range\<close> whose start lies
  ahead of the cursor moves the cursor.
\<close>

definition sync_cursor :: "int \<Rightarrow> nat option \<Rightarrow> int \<Rightarrow> int" where
  "sync_cursor status cr pos =
     (if status = 206
      then (case cr of
              None \<Rightarrow> pos
            | Some srv_start \<Rightarrow> if int srv_start > pos then int srv_start else pos)
      else pos)"

text \<open>
  Lines 146-156, the loop over the body chunks. The cursor \<open>pos\<close> is a local variable
  of \<open>fetch_range\<close>, so it keeps its value when the loop is left by an exception: the
  result is the exception (if any), the cursor and the state.
\<close>

fun consume_body ::
  "int \<Rightarrow> byte list list \<Rightarrow> body_end \<Rightarrow> int \<times> fstate \<Rightarrow> error option \<times> int \<times> fstate" where
  "consume_body end [] fin (pos, st) =
     (case fin of
        EOF \<Rightarrow> (None, pos, st)
      | ReadTimeout \<Rightarrow> (Some TimeoutError, pos, st)
      | ReadError \<Rightarrow> (Some ClientError, pos, st))"
| "consume_body end (chunk # chunks) fin (pos, st) =
     (if pos > end then (None, pos, st)
      else let want = min (int (length chunk)) (end - pos + 1) in
        if want \<le> 0 then (None, pos, st)
        else if pos < 0 then (Some OSError, pos, st)
        else consume_body end chunks fin
               (pos + want, prog_add want (seek_write pos (take (nat want) chunk) st)))"

text \<open>How the body of the \<open>try\<close> statement (lines 127-160) ends for one answer.\<close>

datatype ending = Break | Normal | Exc error

definition try_request :: "int \<Rightarrow> int \<Rightarrow> response \<Rightarrow> fstate \<Rightarrow> ending \<times> int \<times> fstate" where
  "try_request end pos r st =
     (case r of
        ConnTimeout \<Rightarrow> (Exc TimeoutError, pos, st)
      | ConnError \<Rightarrow> (Exc ClientError, pos, st)
      | Response status cr chunks fin \<Rightarrow>
          if status \<noteq> 200 \<and> status \<noteq> 206 \<and> status \<noteq> 416 \<and> 400 \<le> status
          then (Exc (ClientResponseError status), pos, st)
          else if status = 416 then (Break, pos, st)
          else (case consume_body end chunks fin (sync_cursor status cr pos, st) of
                  (None, pos', st') \<Rightarrow> (Normal, pos', st')
                | (Some e, pos', st') \<Rightarrow> (Exc e, pos', st')))"

text \<open>Lines 170-174, the final guard.\<close>

definition final_guard :: "int \<Rightarrow> int \<Rightarrow> int \<Rightarrow> outcome" where
  "final_guard start end pos =
     (if pos \<le> end then Raised (RuntimeError (pos - start) (end - start + 1)) else Returned)"

text \<open>
  The \<open>while pos <= end\<close> loop with its local variables \<open>attempt\<close>, \<open>backoff\<close> and
  \<open>pos\<close>. It consumes one answer of the script per iteration; \<open>None\<close> means that the
  script ran out while the loop still wanted to send a request.
\<close>

fun fetch_loop ::
  "int \<Rightarrow> int \<Rightarrow> int \<Rightarrow> int \<Rightarrow> int \<Rightarrow> int \<Rightarrow> server \<Rightarrow> fstate \<Rightarrow> (outcome \<times> fstate) option" where
  "fetch_loop start end max_retries attempt backoff pos [] st =
     (if pos \<le> end then None else Some (final_guard start end pos, st))"
| "fetch_loop start end max_retries attempt backoff pos (answer # srv) st =
     (if pos \<le> end
      then (case try_request end pos (answer pos end) st of
              (Normal, pos', st') \<Rightarrow> fetch_loop start end max_retries 0 1 pos' srv st'
            | (Break, pos', st') \<Rightarrow> Some (final_guard start end pos', st')
            | (Exc TimeoutError, pos', st') \<Rightarrow>
                if attempt + 1 > max_retries then Some (Raised TimeoutError, st')
                else fetch_loop start end max_retries (attempt + 1) (min (backoff * 2) 10) pos' srv
                       (sleep backoff st')
            | (Exc e, pos', st') \<Rightarrow> Some (Raised e, st'))
      else Some (final_guard start end pos, st))"

definition fetch_range :: "int \<Rightarrow> int \<Rightarrow> int \<Rightarrow> server \<Rightarrow> fstate \<Rightarrow> (outcome \<times> fstate) option" where
  "fetch_range start end max_retries srv st = fetch_loop start end max_retries 0 1 start srv st"

text \<open>Shapes of a write trace. \<open>ascending lo ws hi\<close>: the writes are non-empty, each
  starts at or after the end of the one before, and every written offset lies in
  \<open>[lo, hi)\<close>.
  \<open>tiles lo ws hi\<close>: moreover they leave no gap, from \<open>lo\<close> up to \<open>hi\<close>.\<close>

fun ascending :: "int \<Rightarrow> (int \<times> byte list) list \<Rightarrow> int \<Rightarrow> bool" where
  "ascending lo [] hi = True"
| "ascending lo ((off, data) # ws) hi =
     (lo \<le> off \<and> data \<noteq> [] \<and> off + int (length data) \<le> hi
      \<and> ascending (off + int (length data)) ws hi)"

fun tiles :: "int \<Rightarrow> (int \<times> byte list) list \<Rightarrow> int \<Rightarrow> bool" where
  "tiles lo [] hi = (lo = hi)"
| "tiles lo ((off, data) # ws) hi =
     (off = lo \<and> data \<noteq> [] \<and> tiles (off + int (length data)) ws hi)"

definition apply_writes :: "(int \<times> byte list) list \<Rightarrow> byte list \<Rightarrow> byte list" where
  "apply_writes ws f = foldl (\<lambda>g (off, data). write_at (nat off) data g) f ws"

definition written :: "(int \<times> byte list) list \<Rightarrow> int" where
  "written ws = int (length (concat (map snd ws)))"

text \<open>An answer jumps ahead of the cursor when it makes \<open>sync_cursor\<close> move it.\<close>

definition jumps_ahead :: "int \<Rightarrow> response \<Rightarrow> bool" where
  "jumps_ahead pos r =
     (case r of Response status cr chunks fin \<Rightarrow> sync_cursor status cr pos \<noteq> pos | _ \<Rightarrow> False)"

section \<open>The segmented engine (\<open>download_segmented\<close>)\<close>

text \<open>
  The validators of the probe, and the resume metadata as \<open>worker\<close> writes it with
  \<open>save_meta\<close>: a JSON object with the keys \<open>url\<close>, \<open>size\<close>, \<open>chunk_size\<close>, \<open>etag\<close>,
  \<open>last_modified\<close> and \<open>done\<close>. A validator the server did not send is Python's
  \<open>None\<close> (JSON \<open>null\<close>), here \<open>None\<close>.
\<close>

record validators =
  etag :: "string option"
  last_modified :: "string option"

record meta =
  m_url :: string
  m_size :: int
  m_chunk_size :: int
  m_etag :: "string option"
  m_last_modified :: "string option"
  m_done :: "nat list"

text \<open>
  What is on disk: the output file (\<open>None\<close> when \<open>out_path\<close> does not exist) and what
  \<open>load_meta\<close> returns for the side file (\<open>None\<close> when it is absent or unreadable).
\<close>

record disk =
  out_file :: "byte list option"
  meta_file :: "meta option"

text \<open>Lines 185-190, the resume decision. The Python set is a duplicate-free list.\<close>

definition done_idx :: "meta option \<Rightarrow> string \<Rightarrow> int \<Rightarrow> validators \<Rightarrow> nat list" where
  "done_idx meta url sz v =
     (case meta of
        None \<Rightarrow> []
      | Some m \<Rightarrow>
          if m_size m = sz \<and> m_url m = url
          then (if m_etag m = etag v \<or> m_last_modified m = last_modified v
                then remdups (m_done m) else [])
          else [])"

text \<open>
  Lines 193-195: a missing output file is created empty by \<open>open(out_path, "wb")\<close> and
  extended to \<open>size\<close> zero bytes by \<open>f.truncate(size)\<close>, which raises for a negative
  size and leaves the empty file behind.
\<close>

definition preallocate :: "int \<Rightarrow> disk \<Rightarrow> error option \<times> disk" where
  "preallocate sz d =
     (case out_file d of
        None \<Rightarrow>
          if sz < 0 then (Some OSError, d\<lparr>out_file := Some []\<rparr>)
          else (None, d\<lparr>out_file := Some (replicate (nat sz) 0)\<rparr>)
      | Some f \<Rightarrow> (None, d))"

text \<open>Lines 203-208: the bytes of the segments that are trusted as done.\<close>

definition already :: "(int \<times> int) list \<Rightarrow> nat list \<Rightarrow> int" where
  "already ranges done = sum_list (map (\<lambda>i. snd (ranges ! i) - fst (ranges ! i) + 1) done)"

text \<open>Lines 238-241: one task per segment whose index is not in \<open>done_idx\<close>.\<close>

definition tasks :: "(int \<times> int) list \<Rightarrow> nat list \<Rightarrow> (nat \<times> int \<times> int) list" where
  "tasks ranges done = filter (\<lambda>(i, s, e). i \<notin> set done) (zip [0 ..< length ranges] ranges)"

text \<open>
  Lines 222-233, what a worker does after its \<open>fetch_range\<close> has returned: it loads the
  metadata (an absent or unreadable file counts as \<open>{}\<close>), overwrites the five
  identifying keys, adds its index to whatever \<open>done\<close> list it loaded and saves.
\<close>

definition mark_done :: "string \<Rightarrow> int \<Rightarrow> int \<Rightarrow> validators \<Rightarrow> nat \<Rightarrow> meta option \<Rightarrow> meta option" where
  "mark_done url sz chunk_size v i md =
     Some \<lparr>m_url = url, m_size = sz, m_chunk_size = chunk_size, m_etag = etag v,
            m_last_modified = last_modified v,
            m_done = sort (remdups ((case md of None \<Rightarrow> [] | Some m \<Rightarrow> m_done m) @ [i]))\<rparr>"

text \<open>The state of one run: the output file (it exists from line 195 on), the metadata
  file and the progress counter.\<close>

record estate =
  e_file :: "byte list"
  e_meta :: "meta option"
  e_prog :: int

text \<open>Lines 217-236. An exception of \<open>fetch_range\<close> is printed and raised again; what
  was written before it stays written.\<close>

definition worker ::
  "string \<Rightarrow> int \<Rightarrow> int \<Rightarrow> int \<Rightarrow> validators \<Rightarrow> nat \<Rightarrow> int \<Rightarrow> int \<Rightarrow> server \<Rightarrow> estate
     \<Rightarrow> (outcome \<times> estate) option" where
  "worker url sz chunk_size max_retries v i s e srv es =
     (case fetch_range s e max_retries srv
             \<lparr>fdata = e_file es, prog_done = e_prog es, writes = [], sleeps = []\<rparr> of
        None \<Rightarrow> None
      | Some (Returned, st) \<Rightarrow>
          Some (Returned, \<lparr>e_file = fdata st, e_meta = mark_done url sz chunk_size v i (e_meta es),
                            e_prog = prog_done st\<rparr>)
      | Some (Raised err, st) \<Rightarrow>
          Some (Raised err, \<lparr>e_file = fdata st, e_meta = e_meta es, e_prog = prog_done st\<rparr>))"

text \<open>
  The tasks of one run, in the schedule of \<open>--connections 1\<close>: the semaphore admits one
  worker at a time, in the order the tasks were created. \<open>asyncio.gather\<close> raises the
  first exception of a worker; the run ends there and the tasks behind it do not get to
  write. Each segment has its own server script.
\<close>

fun run_tasks ::
  "string \<Rightarrow> int \<Rightarrow> int \<Rightarrow> int \<Rightarrow> validators \<Rightarrow> (nat \<Rightarrow> server) \<Rightarrow> (nat \<times> int \<times> int) list \<Rightarrow> estate
     \<Rightarrow> (outcome \<times> estate) option" where
  "run_tasks url sz chunk_size max_retries v srv [] es = Some (Returned, es)"
| "run_tasks url sz chunk_size max_retries v srv ((i, s, e) # ts) es =
     (case worker url sz chunk_size max_retries v i s e (srv i) es of
        None \<Rightarrow> None
      | Some (Returned, es') \<Rightarrow> run_tasks url sz chunk_size max_retries v srv ts es'
      | Some (Raised err, es') \<Rightarrow> Some (Raised err, es'))"

text \<open>Lines 246-252: the metadata file is removed when it lists as many indices as
  there are segments.\<close>

definition cleanup :: "nat \<Rightarrow> meta option \<Rightarrow> meta option" where
  "cleanup n md =
     (case md of
        None \<Rightarrow> None
      | Some m \<Rightarrow> if length (m_done m) = n then None else Some m)"

text \<open>
  \<open>download_segmented\<close>. The result is the outcome and what is on disk afterwards;
  \<open>None\<close> stands for a run that does not return (the planning loop, or a worker whose
  script ran out). Reading \<open>ranges[i]\<close> for a trusted index beyond the plan raises.
\<close>

definition download_segmented ::
  "string \<Rightarrow> int \<Rightarrow> int \<Rightarrow> int \<Rightarrow> validators \<Rightarrow> (nat \<Rightarrow> server) \<Rightarrow> disk \<Rightarrow> (outcome \<times> disk) option" where
  "download_segmented url sz chunk_size max_retries v srv d =
     (case plan_ranges sz chunk_size of
        None \<Rightarrow> None
      | Some ranges \<Rightarrow>
          let done = done_idx (meta_file d) url sz v
          in (case preallocate sz d of
                (Some err, d1) \<Rightarrow> Some (Raised err, d1)
              | (None, d1) \<Rightarrow>
                  (case out_file d1 of
                     None \<Rightarrow> Some (Raised FileNotFoundError, d1)
                   | Some f \<Rightarrow>
                       if \<exists>i \<in> set done. length ranges \<le> i then Some (Raised IndexError, d1)
                       else (case run_tasks url sz chunk_size max_retries v srv (tasks ranges done)
                                    \<lparr>e_file = f, e_meta = meta_file d1,
                                      e_prog = already ranges done\<rparr> of
                               None \<Rightarrow> None
                             | Some (Raised err, es) \<Rightarrow>
                                 Some (Raised err,
                                       \<lparr>out_file = Some (e_file es), meta_file = e_meta es\<rparr>)
                             | Some (Returned, es) \<Rightarrow>
                                 Some (Returned,
                                       \<lparr>out_file = Some (e_file es),
                                         meta_file = cleanup (length ranges) (e_meta es)\<rparr>)))))"

text \<open>A server that honours ranges over the resource \<open>res\<close>: it answers a request for
  \<open>bytes=pos-end\<close> with 206, the matching \<open>Content-Range\<close> and the requested bytes in one
  chunk.\<close>

definition range_server :: "byte list \<Rightarrow> int \<Rightarrow> int \<Rightarrow> response" where
  "range_server res pos end =
     Response 206 (Some (nat pos)) [take (nat (end - pos + 1)) (drop (nat pos) res)] EOF"

text \<open>
  The workers of one run under the event loop. There is one thread: a task that has been
  resumed runs until its next \<open>await\<close>, and only then can another task be resumed. The
  third component of the state is the task that is running between two awaits, if any.
  \<^item> A waiting worker passes the semaphore when fewer than \<open>concurrency\<close> workers hold it,
    sends its request and awaits the answer (lines 218-220).
  \<^item> A fetching worker is resumed for the last time when its \<open>fetch_range\<close> returns. It
    goes on to line 222 and loads the metadata into its local variable \<open>md\<close>; lines
    222-233 contain no \<open>await\<close>, so it keeps running.
  \<^item> It then changes \<open>md\<close>, saves it (line 233) and ends.
  \<^item> A fetching worker whose \<open>fetch_range\<close> raises ends without touching the metadata.
  The k-th worker has the segment index \<open>idxs ! k\<close>.
\<close>

datatype wstate =
    Waiting
  | Fetching
  | Loaded "meta option"   \<comment> \<open>between \<open>load_meta\<close> and \<open>save_meta\<close>, with what was loaded\<close>
  | Finished
  | Failed

definition holding :: "wstate list \<Rightarrow> nat" where
  "holding ws = length (filter (\<lambda>w. w \<noteq> Waiting \<and> w \<noteq> Finished \<and> w \<noteq> Failed) ws)"

inductive sched ::
  "string \<Rightarrow> int \<Rightarrow> int \<Rightarrow> validators \<Rightarrow> nat \<Rightarrow> nat list
     \<Rightarrow> wstate list \<times> meta option \<times> nat option \<Rightarrow> wstate list \<times> meta option \<times> nat option \<Rightarrow> bool"
  for url :: string and sz :: int and chunk_size :: int and v :: validators
    and concurrency :: nat and idxs :: "nat list" where
  acquire: "k < length ws \<Longrightarrow> ws ! k = Waiting \<Longrightarrow> holding ws < concurrency
      \<Longrightarrow> sched url sz chunk_size v concurrency idxs (ws, md, None) (ws[k := Fetching], md, None)"
| load: "k < length ws \<Longrightarrow> ws ! k = Fetching
      \<Longrightarrow> sched url sz chunk_size v concurrency idxs (ws, md, None) (ws[k := Loaded md], md, Some k)"
| save: "k < length ws \<Longrightarrow> ws ! k = Loaded m
      \<Longrightarrow> sched url sz chunk_size v concurrency idxs (ws, md, Some k)
            (ws[k := Finished], mark_done url sz chunk_size v (idxs ! k) m, None)"
| fail: "k < length ws \<Longrightarrow> ws ! k = Fetching
      \<Longrightarrow> sched url sz chunk_size v concurrency idxs (ws, md, None) (ws[k := Failed], md, None)"

text \<open>The indices that the metadata file lists as done.\<close>

definition done_of :: "meta option \<Rightarrow> nat set" where
  "done_of md = (case md of None \<Rightarrow> {} | Some m \<Rightarrow> set (m_done m))"

text \<open>
  The invariant of the schedule: a worker that stands between its load and its save is
  the running task and what it loaded is what the file holds; and the file lists the
  index of every finished worker.
\<close>

definition sched_inv :: "nat list \<Rightarrow> wstate list \<times> meta option \<times> nat option \<Rightarrow> bool" where
  "sched_inv idxs c =
     (case c of (ws, md, run) \<Rightarrow>
        (\<forall>k < length ws. \<forall>m. ws ! k = Loaded m \<longrightarrow> run = Some k \<and> m = md)
      \<and> (\<forall>k < length ws. ws ! k = Finished \<longrightarrow> idxs ! k \<in> done_of md))"

section \<open>Properties of the range plan\<close>

lemma chained_append:
  "chained cs pos (xs @ ys) stop = (\<exists>mid. chained cs pos xs mid \<and> chained cs mid ys stop)"
  by (induction xs arbitrary: pos) auto

lemma plan_loop_total:
  assumes "0 < chunk_size"
  shows "pos \<le> sz \<Longrightarrow> \<exists>rs. plan_loop sz chunk_size pos acc = Some (acc @ rs)
            \<and> chained chunk_size pos rs sz"
proof (induction "nat (sz - pos)" arbitrary: pos acc rule: less_induct)
  case less
  show ?case
  proof (cases "pos < sz")
    case False
    with less.prems have "pos = sz" by simp
    then show ?thesis by (subst plan_loop.simps) simp
  next
    case True
    define e where "e = min (sz - 1) (pos + chunk_size - 1)"
    have e: "pos \<le> e" "e \<le> sz - 1" "e - pos + 1 \<le> chunk_size"
      using True assms by (auto simp: e_def)
    have "nat (sz - (e + 1)) < nat (sz - pos)" using e True by simp
    moreover have "e + 1 \<le> sz" using e by simp
    ultimately obtain rs where rs:
      "plan_loop sz chunk_size (e + 1) ((acc @ [(pos, e)])) = Some ((acc @ [(pos, e)]) @ rs)"
      "chained chunk_size (e + 1) rs sz"
      using less.hyps[of "e + 1" "acc @ [(pos, e)]"] by blast
    have "plan_loop sz chunk_size pos acc = Some (acc @ ((pos, e) # rs))"
      using True rs(1) by (subst plan_loop.simps) (simp add: e_def)
    moreover have "chained chunk_size pos ((pos, e) # rs) sz"
      using e rs(2) by simp
    ultimately show ?thesis by blast
  qed
qed


lemma chained_ends:
  "chained cs pos rs stop \<Longrightarrow> rs \<noteq> [] \<Longrightarrow> fst (hd rs) = pos \<and> snd (last rs) + 1 = stop"
  by (induction rs arbitrary: pos) (auto split: if_splits)

lemma chained_adjacent:
  "chained cs pos rs stop \<Longrightarrow> Suc i < length rs \<Longrightarrow> snd (rs ! i) + 1 = fst (rs ! Suc i)"
proof (induction rs arbitrary: pos i)
  case Nil
  then show ?case by simp
next
  case (Cons r rs)
  obtain s e where r: "r = (s, e)" by (cases r)
  from Cons.prems r have tl: "chained cs (e + 1) rs stop" by simp
  show ?case
  proof (cases i)
    case 0
    with Cons.prems have "rs \<noteq> []" by auto
    with tl have "fst (hd rs) = e + 1" using chained_ends by blast
    with 0 r \<open>rs \<noteq> []\<close> show ?thesis by (simp add: hd_conv_nth)
  next
    case (Suc j)
    with Cons.prems have "Suc j < length rs" by simp
    with tl Cons.IH have "snd (rs ! j) + 1 = fst (rs ! Suc j)" by blast
    with Suc show ?thesis by simp
  qed
qed

lemma chained_bounded:
  "chained cs pos rs stop \<Longrightarrow> (s, e) \<in> set rs \<Longrightarrow> s \<le> e \<and> e - s + 1 \<le> cs"
  by (induction rs arbitrary: pos) auto

lemma chained_nonempty: "chained cs pos rs stop \<Longrightarrow> pos < stop \<Longrightarrow> rs \<noteq> []"
  by (cases rs) auto

text \<open>
  Claim C2. For every \<open>size > 0\<close> and \<open>chunk_size > 0\<close> the planning loop returns, and
  its plan is an ordered sequence of segments that partitions \<open>[0, size)\<close> exactly: the
  first segment starts at 0, the last one ends at \<open>size - 1\<close>, each segment ends one
  byte before the next one starts, and no segment is longer than \<open>chunk_size\<close> (nor
  empty). The plan is a function of \<open>size\<close> and \<open>chunk_size\<close> alone, so planning again
  with the same inputs gives the same boundaries.
\<close>

theorem plan_ranges_partition:
  assumes "0 < sz" and "0 < chunk_size"
  shows "\<exists>rs. plan_ranges sz chunk_size = Some rs \<and> rs \<noteq> []
           \<and> fst (hd rs) = 0 \<and> snd (last rs) = sz - 1
           \<and> (\<forall>i. Suc i < length rs \<longrightarrow> snd (rs ! i) + 1 = fst (rs ! Suc i))
           \<and> (\<forall>(s, e) \<in> set rs. s \<le> e \<and> e - s + 1 \<le> chunk_size)"
proof -
  from plan_loop_total[OF assms(2), of 0 sz "[]"] assms(1)
  obtain rs where rs: "plan_ranges sz chunk_size = Some rs" "chained chunk_size 0 rs sz"
    by (auto simp: plan_ranges_def)
  from rs(2) assms(1) have ne: "rs \<noteq> []" by (rule chained_nonempty)
  from chained_ends[OF rs(2) ne] have ends: "fst (hd rs) = 0" "snd (last rs) = sz - 1" by auto
  have adj: "\<forall>i. Suc i < length rs \<longrightarrow> snd (rs ! i) + 1 = fst (rs ! Suc i)"
    using chained_adjacent[OF rs(2)] by blast
  have bnd: "\<forall>(s, e) \<in> set rs. s \<le> e \<and> e - s + 1 \<le> chunk_size"
    using chained_bounded[OF rs(2)] by blast
  from rs(1) ne ends adj bnd show ?thesis by blast
qed

text \<open>The theorem at \<open>size = 10\<close>, \<open>chunk_size = 4\<close>, where the plan is
  \<open>[(0, 3), (4, 7), (8, 9)]\<close>.\<close>

theorem plan_ranges_partition_witness:
  "(0::int) < 10 \<and> (0::int) < 4
   \<and> plan_ranges 10 4 = Some [(0, 3), (4, 7), (8, 9)]
   \<and> (\<exists>rs. plan_ranges 10 4 = Some rs \<and> rs \<noteq> []
           \<and> fst (hd rs) = 0 \<and> snd (last rs) = 10 - 1
           \<and> (\<forall>i. Suc i < length rs \<longrightarrow> snd (rs ! i) + 1 = fst (rs ! Suc i))
           \<and> (\<forall>(s, e) \<in> set rs. s \<le> e \<and> e - s + 1 \<le> 4))"
proof -
  have a: "(0::int) < 10" and b: "(0::int) < 4" by simp_all
  have c: "plan_ranges 10 4 = Some [(0, 3), (4, 7), (8, 9)]"
    by (simp add: plan_ranges_def plan_loop.simps)
  from a b c plan_ranges_partition[OF a b] show ?thesis by blast
qed

section \<open>Properties of the segment fetcher\<close>

lemma write_at_length: "length (write_at off data f) = max (length f) (off + length data)"
  by (auto simp: write_at_def)

lemma write_at_nth_outside:
  "k < length f \<Longrightarrow> k < off \<or> off + length data \<le> k \<Longrightarrow> write_at off data f ! k = f ! k"
  by (auto simp: write_at_def nth_append min_def)

lemma write_at_nth_inside:
  "off \<le> k \<Longrightarrow> k < off + length data \<Longrightarrow> write_at off data f ! k = data ! (k - off)"
  by (auto simp: write_at_def nth_append min_def)

lemma write_at_in_bounds:
  "off + length data \<le> length f \<Longrightarrow>
     write_at off data f = take off f @ data @ drop (off + length data) f"
  by (simp add: write_at_def)

lemma write_at_append:
  "write_at (off + length d1) d2 (write_at off d1 f) = write_at off (d1 @ d2) f"
  by (auto simp: write_at_def min_def ac_simps replicate_add[symmetric] simp del: replicate_add)

lemma tiles_le: "tiles p ws q \<Longrightarrow> p \<le> q"
  by (induction ws arbitrary: p) (simp, force)

lemma tiles_append: "tiles p ws1 q \<Longrightarrow> tiles q ws2 r \<Longrightarrow> tiles p (ws1 @ ws2) r"
  by (induction ws1 arbitrary: p) auto

lemma ascending_mono: "ascending lo ws hi \<Longrightarrow> lo' \<le> lo \<Longrightarrow> ascending lo' ws hi"
  by (cases ws) auto

lemma tiles_ascending_append:
  "tiles p ws1 q \<Longrightarrow> (ws1 \<noteq> [] \<longrightarrow> q \<le> hi) \<Longrightarrow> ascending q ws2 hi \<Longrightarrow> ascending p (ws1 @ ws2) hi"
proof (induction ws1 arbitrary: p)
  case Nil
  then show ?case by simp
next
  case (Cons w ws1)
  obtain off d where w: "w = (off, d)" by (cases w)
  from Cons.prems(1) w have t: "off = p" "d \<noteq> []" "tiles (off + int (length d)) ws1 q" by auto
  from t(3) have "off + int (length d) \<le> q" by (rule tiles_le)
  with Cons.prems(2) have le: "off + int (length d) \<le> hi" by simp
  have "ascending (off + int (length d)) (ws1 @ ws2) hi"
    using Cons.IH[OF t(3) _ Cons.prems(3)] Cons.prems(2) by simp
  with w t le show ?case by simp
qed


lemma apply_writes_Nil [simp]: "apply_writes [] f = f"
  by (simp add: apply_writes_def)

lemma apply_writes_Cons [simp]:
  "apply_writes ((off, d) # ws) f = apply_writes ws (write_at (nat off) d f)"
  by (simp add: apply_writes_def)

lemma apply_writes_append: "apply_writes (ws1 @ ws2) f = apply_writes ws2 (apply_writes ws1 f)"
  by (simp add: apply_writes_def)


lemma written_simps [simp]:
  "written [] = 0" "written ((off, d) # ws) = int (length d) + written ws"
  "written (ws1 @ ws2) = written ws1 + written ws2"
  by (simp_all add: written_def)

lemma tiles_written: "tiles p ws q \<Longrightarrow> written ws = q - p"
  by (induction ws arbitrary: p) (simp, force)

lemma consume_body_effect:
  "consume_body end chunks fin (pos, st) = (r, pos', st') \<Longrightarrow>
     \<exists>ws. writes st' = writes st @ ws \<and> tiles pos ws pos'
        \<and> (ws \<noteq> [] \<longrightarrow> 0 \<le> pos \<and> pos' \<le> end + 1)
        \<and> prog_done st' = prog_done st + (pos' - pos)
        \<and> fdata st' = apply_writes ws (fdata st) \<and> sleeps st' = sleeps st"
proof (induction chunks arbitrary: pos st)
  case Nil
  then show ?case by (auto split: body_end.splits)
next
  case (Cons chunk chunks)
  define want where "want = min (int (length chunk)) (end - pos + 1)"
  show ?case
  proof (cases "pos \<le> end \<and> 0 < want \<and> 0 \<le> pos")
    case False
    with Cons.prems have "pos' = pos" "st' = st"
      by (auto simp: want_def Let_def split: if_splits)
    then show ?thesis by simp
  next
    case True
    define d where "d = take (nat want) chunk"
    define st1 where "st1 = prog_add want (seek_write pos d st)"
    have len: "int (length d) = want" using True by (auto simp: d_def want_def)
    have d_ne: "d \<noteq> []" using len True by auto
    have st1: "writes st1 = writes st @ [(pos, d)]" "prog_done st1 = prog_done st + want"
      "fdata st1 = write_at (nat pos) d (fdata st)" "sleeps st1 = sleeps st"
      by (simp_all add: st1_def prog_add_def seek_write_def)
    from True have c: "\<not> pos > end" "\<not> want \<le> 0" "\<not> pos < 0" by auto
    have "consume_body end (chunk # chunks) fin (pos, st)
            = consume_body end chunks fin (pos + want, st1)"
      unfolding st1_def d_def want_def
      by (simp only: consume_body.simps Let_def c[unfolded want_def] if_False)
    with Cons.prems have "consume_body end chunks fin (pos + want, st1) = (r, pos', st')"
      by simp
    from Cons.IH[OF this] obtain ws where ws:
      "writes st' = writes st1 @ ws" "tiles (pos + want) ws pos'"
      "ws \<noteq> [] \<longrightarrow> 0 \<le> pos + want \<and> pos' \<le> end + 1"
      "prog_done st' = prog_done st1 + (pos' - (pos + want))"
      "fdata st' = apply_writes ws (fdata st1)" "sleeps st' = sleeps st1"
      by blast
    have le: "pos' \<le> end + 1"
    proof (cases "ws = []")
      case True
      with ws(2) have "pos' = pos + want" by simp
      then show ?thesis by (simp add: want_def)
    next
      case False
      with ws(3) show ?thesis by simp
    qed
    have "writes st' = writes st @ ((pos, d) # ws)" using ws(1) st1(1) by simp
    moreover have "tiles pos ((pos, d) # ws) pos'" using ws(2) d_ne len by simp
    moreover have "prog_done st' = prog_done st + (pos' - pos)" using ws(4) st1(2) by simp
    moreover have "fdata st' = apply_writes ((pos, d) # ws) (fdata st)" using ws(5) st1(3) by simp
    moreover have "sleeps st' = sleeps st" using ws(6) st1(4) by simp
    ultimately show ?thesis using True le by blast
  qed
qed


lemma try_request_effect:
  assumes "try_request end pos r st = (e, pos', st')"
  shows "\<exists>ws q. pos \<le> q \<and> (q = pos \<or> jumps_ahead pos r) \<and> writes st' = writes st @ ws
           \<and> tiles q ws pos' \<and> (ws \<noteq> [] \<longrightarrow> 0 \<le> q \<and> pos' \<le> end + 1)
           \<and> prog_done st' = prog_done st + written ws
           \<and> fdata st' = apply_writes ws (fdata st) \<and> sleeps st' = sleeps st"
proof (cases r)
  case ConnTimeout
  with assms show ?thesis by (auto simp: try_request_def intro!: exI[of _ "[]"])
next
  case ConnError
  with assms show ?thesis by (auto simp: try_request_def intro!: exI[of _ "[]"])
next
  case (Response status cr chunks fin)
  define q where "q = sync_cursor status cr pos"
  have q: "pos \<le> q" "q = pos \<or> jumps_ahead pos r"
    by (auto simp: q_def sync_cursor_def jumps_ahead_def Response split: option.splits)
  show ?thesis
  proof (cases "(status \<noteq> 200 \<and> status \<noteq> 206 \<and> status \<noteq> 416 \<and> 400 \<le> status) \<or> status = 416")
    case True
    with assms Response have "pos' = pos" "st' = st"
      by (auto simp: try_request_def split: if_splits)
    then show ?thesis by (intro exI[of _ "[]"] exI[of _ pos]) simp
  next
    case False
    obtain r1 p1 s1 where c: "consume_body end chunks fin (q, st) = (r1, p1, s1)"
      by (cases "consume_body end chunks fin (q, st)") auto
    with assms Response False have eq: "pos' = p1" "st' = s1"
      by (auto simp: try_request_def q_def split: if_splits option.splits)
    from consume_body_effect[OF c] obtain ws where ws:
      "writes s1 = writes st @ ws" "tiles q ws p1" "ws \<noteq> [] \<longrightarrow> 0 \<le> q \<and> p1 \<le> end + 1"
      "prog_done s1 = prog_done st + (p1 - q)" "fdata s1 = apply_writes ws (fdata st)"
      "sleeps s1 = sleeps st"
      by blast
    from ws(2) have "written ws = p1 - q" by (rule tiles_written)
    with ws q eq show ?thesis by auto
  qed
qed

lemma sleep_simps [simp]:
  "writes (sleep t st) = writes st" "prog_done (sleep t st) = prog_done st"
  "fdata (sleep t st) = fdata st" "sleeps (sleep t st) = sleeps st @ [t]"
  by (simp_all add: sleep_def)

lemma fetch_loop_Cons:
  "fetch_loop start end mr a b pos (answer # srv) st = Some (out, st') \<Longrightarrow> pos \<le> end \<Longrightarrow>
   try_request end pos (answer pos end) st = (e, p1, s1) \<Longrightarrow>
     (e = Normal \<and> fetch_loop start end mr 0 1 p1 srv s1 = Some (out, st'))
   \<or> (e = Exc TimeoutError \<and> a + 1 \<le> mr
        \<and> fetch_loop start end mr (a + 1) (min (b * 2) 10) p1 srv (sleep b s1) = Some (out, st'))
   \<or> (st' = s1 \<and> (e = Break \<and> out = final_guard start end p1
                   \<or> (\<exists>err. e = Exc err \<and> out = Raised err)))"
  by (auto split: ending.splits error.splits if_splits)

lemma fetch_loop_stop:
  "\<not> pos \<le> end \<Longrightarrow> fetch_loop start end mr a b pos srv st = Some (final_guard start end pos, st)"
  by (cases srv) auto


lemma ascending_after_tiles:
  assumes t: "tiles q ws1 p1" and b: "ws1 \<noteq> [] \<longrightarrow> 0 \<le> q \<and> p1 \<le> hi"
    and le: "pos \<le> q" and a: "ascending (max 0 p1) ws2 hi"
  shows "ascending (max 0 pos) (ws1 @ ws2) hi"
proof (cases "ws1 = []")
  case True
  with t have "p1 = q" by simp
  with le have "max 0 pos \<le> max 0 p1" by simp
  with a True show ?thesis by (simp add: ascending_mono)
next
  case False
  with b have q: "0 \<le> q" "p1 \<le> hi" by auto
  from t have "q \<le> p1" by (rule tiles_le)
  with q have "max 0 p1 = p1" by simp
  with a have "ascending p1 ws2 hi" by simp
  with t q(2) have "ascending q (ws1 @ ws2) hi" by (intro tiles_ascending_append) auto
  moreover have "max 0 pos \<le> q" using q le by simp
  ultimately show ?thesis by (rule ascending_mono)
qed

lemma fetch_loop_trace:
  "fetch_loop start end mr a b pos srv st = Some (out, st') \<Longrightarrow>
     \<exists>ws. writes st' = writes st @ ws \<and> ascending (max 0 pos) ws (end + 1)
        \<and> prog_done st' = prog_done st + written ws
        \<and> fdata st' = apply_writes ws (fdata st)"
proof (induction srv arbitrary: a b pos st)
  case Nil
  then show ?case by (auto split: if_splits intro!: exI[of _ "[]"])
next
  case (Cons answer srv)
  show ?case
  proof (cases "pos \<le> end")
    case False
    with Cons.prems have "st' = st" by simp
    then show ?thesis by (auto intro!: exI[of _ "[]"])
  next
    case True
    obtain e p1 s1 where tr: "try_request end pos (answer pos end) st = (e, p1, s1)"
      by (cases "try_request end pos (answer pos end) st") auto
    from try_request_effect[OF tr] obtain ws1 q where w1:
      "pos \<le> q" "writes s1 = writes st @ ws1" "tiles q ws1 p1"
      "ws1 \<noteq> [] \<longrightarrow> 0 \<le> q \<and> p1 \<le> end + 1"
      "prog_done s1 = prog_done st + written ws1" "fdata s1 = apply_writes ws1 (fdata st)"
      by blast
    have "\<exists>ws2. writes st' = writes s1 @ ws2 \<and> ascending (max 0 p1) ws2 (end + 1)
        \<and> prog_done st' = prog_done s1 + written ws2
        \<and> fdata st' = apply_writes ws2 (fdata s1)"
    proof -
      have "fetch_loop start end mr 0 1 p1 srv s1 = Some (out, st')
          \<or> fetch_loop start end mr (a + 1) (min (b * 2) 10) p1 srv (sleep b s1) = Some (out, st')
          \<or> st' = s1"
        using fetch_loop_Cons[OF Cons.prems True tr] by blast
      then show ?thesis
      proof (elim disjE)
      assume "fetch_loop start end mr 0 1 p1 srv s1 = Some (out, st')"
      from Cons.IH[OF this] show ?thesis .
    next
      assume "fetch_loop start end mr (a + 1) (min (b * 2) 10) p1 srv (sleep b s1) = Some (out, st')"
      from Cons.IH[OF this] show ?thesis by simp
    next
      assume "st' = s1"
      then show ?thesis by (auto intro!: exI[of _ "[]"])
    qed
    qed
    then obtain ws2 where w2: "writes st' = writes s1 @ ws2" "ascending (max 0 p1) ws2 (end + 1)"
      "prog_done st' = prog_done s1 + written ws2" "fdata st' = apply_writes ws2 (fdata s1)"
      by blast
    have "ascending (max 0 pos) (ws1 @ ws2) (end + 1)"
      using w1(3) w1(4) w1(1) w2(2) by (rule ascending_after_tiles)
    moreover have "writes st' = writes st @ (ws1 @ ws2)" using w1(2) w2(1) by simp
    moreover have "prog_done st' = prog_done st + written (ws1 @ ws2)" using w1(5) w2(3) by simp
    moreover have "fdata st' = apply_writes (ws1 @ ws2) (fdata st)"
      using w1(6) w2(4) by (simp add: apply_writes_append)
    ultimately show ?thesis by blast
  qed
qed

lemma apply_writes_outside:
  "ascending lo ws hi \<Longrightarrow> 0 \<le> lo \<Longrightarrow> k < length f \<Longrightarrow> int k < lo \<or> hi \<le> int k \<Longrightarrow>
     apply_writes ws f ! k = f ! k \<and> length f \<le> length (apply_writes ws f)"
proof (induction ws arbitrary: lo f)
  case Nil
  then show ?case by simp
next
  case (Cons w ws)
  obtain off d where w: "w = (off, d)" by (cases w)
  from Cons.prems(1) w have a: "lo \<le> off" "off + int (length d) \<le> hi"
    "ascending (off + int (length d)) ws hi" by auto
  define g where "g = write_at (nat off) d f"
  have len: "length f \<le> length g" by (simp add: g_def write_at_length)
  have "k < nat off \<or> nat off + length d \<le> k" using Cons.prems(2,4) a by linarith
  with Cons.prems(3) have nth: "g ! k = f ! k" unfolding g_def by (rule write_at_nth_outside)
  have "apply_writes ws g ! k = g ! k \<and> length g \<le> length (apply_writes ws g)"
  proof (rule Cons.IH[OF a(3)])
    show "0 \<le> off + int (length d)" using a(1) Cons.prems(2) by simp
    show "k < length g" using len Cons.prems(3) by simp
    show "int k < off + int (length d) \<or> hi \<le> int k" using Cons.prems(4) a(1) by linarith
  qed
  with nth len w show ?case by (simp add: g_def)
qed

lemma ascending_member:
  "ascending lo ws hi \<Longrightarrow> (off, d) \<in> set ws \<Longrightarrow> lo \<le> off \<and> off + int (length d) \<le> hi"
proof (induction ws arbitrary: lo)
  case Nil
  then show ?case by simp
next
  case (Cons w ws)
  obtain o1 d1 where w: "w = (o1, d1)" by (cases w)
  from Cons.prems(1) w have a: "lo \<le> o1" "o1 + int (length d1) \<le> hi"
    "ascending (o1 + int (length d1)) ws hi" by auto
  show ?case
  proof (cases "(off, d) = w")
    case True
    with w a show ?thesis by simp
  next
    case False
    with Cons.prems(2) have "(off, d) \<in> set ws" by simp
    from Cons.IH[OF a(3) this] a(1) show ?thesis by simp
  qed
qed

text \<open>
  Claim C4. Whatever the server answers, a \<open>fetch_range\<close> call for the segment
  \<open>[start, end]\<close> never writes outside that segment. The writes it adds to the trace
  are non-empty, each one starts at or after the end of the one before (the cursor
  starts at \<open>start\<close> and only moves forward), every written offset lies in
  \<open>[start, end]\<close> (a chunk longer than what is left of the segment is cut at the
  segment boundary, and a declared \<open>Content-Range\<close> start ahead of the cursor only moves
  the cursor forward), and every byte of the file outside \<open>[start, end]\<close> keeps its
  value. A run that is cut short is covered too: ending its script with a connection
  error returns the state reached so far.
\<close>

theorem fetch_range_stays_in_segment:
  assumes "fetch_range start end max_retries srv st = Some (out, st')"
  shows "\<exists>ws. writes st' = writes st @ ws \<and> fdata st' = apply_writes ws (fdata st)
           \<and> ascending start ws (end + 1)
           \<and> (\<forall>(off, d) \<in> set ws. 0 \<le> off \<and> start \<le> off \<and> off + int (length d) - 1 \<le> end)
           \<and> (\<forall>k < length (fdata st). int k < start \<or> end < int k \<longrightarrow> fdata st' ! k = fdata st ! k)"
proof -
  from assms have "fetch_loop start end max_retries 0 1 start srv st = Some (out, st')"
    by (simp add: fetch_range_def)
  from fetch_loop_trace[OF this] obtain ws where ws:
    "writes st' = writes st @ ws" "ascending (max 0 start) ws (end + 1)"
    "fdata st' = apply_writes ws (fdata st)"
    by blast
  from ws(2) have asc: "ascending start ws (end + 1)" by (rule ascending_mono) simp
  have mem: "\<forall>(off, d) \<in> set ws. 0 \<le> off \<and> start \<le> off \<and> off + int (length d) - 1 \<le> end"
    using ascending_member[OF ws(2)] by fastforce
  have out: "\<forall>k < length (fdata st). int k < start \<or> end < int k \<longrightarrow> fdata st' ! k = fdata st ! k"
  proof (intro allI impI)
    fix k assume k: "k < length (fdata st)" and o: "int k < start \<or> end < int k"
    from o have "int k < max 0 start \<or> end + 1 \<le> int k" by auto
    with apply_writes_outside[OF ws(2) _ k] ws(3) show "fdata st' ! k = fdata st ! k" by simp
  qed
  from ws(1,3) asc mem out show ?thesis by blast
qed

text \<open>A run for the segment \<open>[2, 5]\<close> of an eight-byte file: the server starts at
  offset 3 instead of 2 and sends five bytes where three fit.\<close>

theorem fetch_range_stays_in_segment_witness:
  "fetch_range 2 5 3 [\<lambda>pos end. Response 206 (Some 3) [[1, 2], [3, 4, 5]] EOF]
      \<lparr>fdata = [0, 0, 0, 0, 0, 0, 0, 0], prog_done = 0, writes = [], sleeps = []\<rparr>
    = Some (Returned, \<lparr>fdata = [0, 0, 0, 1, 2, 3, 0, 0], prog_done = 3,
                        writes = [(3, [1, 2]), (5, [3])], sleeps = []\<rparr>)
   \<and> (\<exists>ws. [(3, [1, 2]), (5, [3])] = [] @ ws
          \<and> [0, 0, 0, 1, 2, 3, 0, 0] = apply_writes ws [0, 0, 0, 0, 0, 0, 0, 0]
          \<and> ascending 2 ws (5 + 1)
          \<and> (\<forall>(off, d) \<in> set ws. 0 \<le> off \<and> 2 \<le> off \<and> off + int (length d) - 1 \<le> 5)
          \<and> (\<forall>k < length [0, 0, 0, 0, 0, 0, 0, 0 :: byte]. int k < 2 \<or> 5 < int k \<longrightarrow>
                [0, 0, 0, 1, 2, 3, 0, 0 :: byte] ! k = [0, 0, 0, 0, 0, 0, 0, 0] ! k))"
proof -
  have run: "fetch_range 2 5 3 [\<lambda>pos end. Response 206 (Some 3) [[1, 2], [3, 4, 5]] EOF]
      \<lparr>fdata = [0, 0, 0, 0, 0, 0, 0, 0], prog_done = 0, writes = [], sleeps = []\<rparr>
    = Some (Returned, \<lparr>fdata = [0, 0, 0, 1, 2, 3, 0, 0], prog_done = 3,
                        writes = [(3, [1, 2]), (5, [3])], sleeps = []\<rparr>)"
    by (simp add: fetch_range_def try_request_def sync_cursor_def final_guard_def
          seek_write_def prog_add_def write_at_def)
  from fetch_range_stays_in_segment[OF run]
  have "\<exists>ws. [(3, [1, 2]), (5, [3])] = [] @ ws
          \<and> [0, 0, 0, 1, 2, 3, 0, 0] = apply_writes ws [0, 0, 0, 0, 0, 0, 0, 0]
          \<and> ascending 2 ws (5 + 1)
          \<and> (\<forall>(off, d) \<in> set ws. 0 \<le> off \<and> 2 \<le> off \<and> off + int (length d) - 1 \<le> 5)
          \<and> (\<forall>k < length [0, 0, 0, 0, 0, 0, 0, 0 :: byte]. int k < 2 \<or> 5 < int k \<longrightarrow>
                [0, 0, 0, 1, 2, 3, 0, 0 :: byte] ! k = [0, 0, 0, 0, 0, 0, 0, 0] ! k)"
    by (simp only: fstate.select_convs)
  with run show ?thesis by (rule conjI)
qed

subsection \<open>Status 416\<close>

text \<open>A 416 answer leaves the loop by \<open>break\<close> while \<open>pos \<le> end\<close> still holds,
  so the final guard raises.\<close>

lemma status_416_raises:
  "pos \<le> end \<Longrightarrow> answer pos end = Response 416 cr chunks fin \<Longrightarrow>
     fetch_loop start end max_retries attempt backoff pos (answer # srv) st
       = Some (Raised (RuntimeError (pos - start) (end - start + 1)), st)"
  by (simp add: try_request_def final_guard_def)

text \<open>
  Claim C5. The claim says that a 416 answer makes the fetch return as a success. The
  code at that input: the segment \<open>[0, 3]\<close>, the server answers the first request with
  416. The call raises the incomplete-range error (got 0 of 4 bytes) and leaves the
  state as it was, so the worker fails and the segment is not marked done.
\<close>

theorem status_416_first_answer:
  "fetch_range 0 3 5 [\<lambda>pos end. Response 416 None [] EOF]
      \<lparr>fdata = [0, 0, 0, 0], prog_done = 0, writes = [], sleeps = []\<rparr>
    = Some (Raised (RuntimeError 0 4),
            \<lparr>fdata = [0, 0, 0, 0], prog_done = 0, writes = [], sleeps = []\<rparr>)"
  by (simp add: fetch_range_def try_request_def final_guard_def)

subsection \<open>What a successful fetch has written\<close>

lemma tiles_apply_writes:
  "tiles p ws q \<Longrightarrow> ws \<noteq> [] \<Longrightarrow> 0 \<le> p \<Longrightarrow>
     apply_writes ws f = write_at (nat p) (concat (map snd ws)) f"
proof (induction ws arbitrary: p f)
  case Nil
  then show ?case by simp
next
  case (Cons w ws)
  obtain off d where w: "w = (off, d)" by (cases w)
  from Cons.prems(1) w have t: "off = p" "tiles (p + int (length d)) ws q" by auto
  show ?case
  proof (cases "ws = []")
    case True
    with w t show ?thesis by simp
  next
    case False
    have "apply_writes ws (write_at (nat p) d f)
            = write_at (nat (p + int (length d))) (concat (map snd ws)) (write_at (nat p) d f)"
      using Cons.IH[OF t(2) False] Cons.prems(3) by simp
    also have "nat (p + int (length d)) = nat p + length d" using Cons.prems(3) by simp
    finally show ?thesis using w t by (simp add: write_at_append)
  qed
qed

lemma fetch_loop_tiles:
  "fetch_loop start end mr a b pos srv st = Some (Returned, st') \<Longrightarrow> pos \<le> end + 1 \<Longrightarrow>
   \<forall>answer \<in> set srv. \<forall>p. pos \<le> p \<and> p \<le> end \<longrightarrow> \<not> jumps_ahead p (answer p end) \<Longrightarrow>
     \<exists>ws. writes st' = writes st @ ws \<and> tiles pos ws (end + 1)"
proof (induction srv arbitrary: a b pos st)
  case Nil
  then show ?case by (auto simp: final_guard_def split: if_splits)
next
  case (Cons answer srv)
  show ?case
  proof (cases "pos \<le> end")
    case False
    with Cons.prems(1,2) have "st' = st" "pos = end + 1" by auto
    then show ?thesis by simp
  next
    case True
    obtain e p1 s1 where tr: "try_request end pos (answer pos end) st = (e, p1, s1)"
      by (cases "try_request end pos (answer pos end) st") auto
    from Cons.prems(3) True have nj: "\<not> jumps_ahead pos (answer pos end)" by simp
    from try_request_effect[OF tr] nj obtain ws1 where w1:
      "writes s1 = writes st @ ws1" "tiles pos ws1 p1" "ws1 \<noteq> [] \<longrightarrow> p1 \<le> end + 1"
      by blast
    from w1(2) have "pos \<le> p1" by (rule tiles_le)
    with Cons.prems(3)
    have rest: "\<forall>answer \<in> set srv. \<forall>p. p1 \<le> p \<and> p \<le> end \<longrightarrow> \<not> jumps_ahead p (answer p end)"
      by auto
    have p1: "p1 \<le> end + 1"
    proof (cases "ws1 = []")
      case True
      with w1(2) Cons.prems(2) show ?thesis by simp
    next
      case False
      with w1(3) show ?thesis by simp
    qed
    have "fetch_loop start end mr 0 1 p1 srv s1 = Some (Returned, st')
          \<or> fetch_loop start end mr (a + 1) (min (b * 2) 10) p1 srv (sleep b s1) = Some (Returned, st')
          \<or> (st' = s1 \<and> Returned = final_guard start end p1)"
      using fetch_loop_Cons[OF Cons.prems(1) True tr] by blast
    then have "\<exists>ws2. writes st' = writes s1 @ ws2 \<and> tiles p1 ws2 (end + 1)"
    proof (elim disjE)
      assume "fetch_loop start end mr 0 1 p1 srv s1 = Some (Returned, st')"
      from Cons.IH[OF this p1 rest] show ?thesis .
    next
      assume "fetch_loop start end mr (a + 1) (min (b * 2) 10) p1 srv (sleep b s1) = Some (Returned, st')"
      from Cons.IH[OF this p1 rest] show ?thesis by simp
    next
      assume "st' = s1 \<and> Returned = final_guard start end p1"
      then have "st' = s1" "p1 = end + 1" using p1 by (auto simp: final_guard_def split: if_splits)
      then show ?thesis by simp
    qed
    then obtain ws2 where w2: "writes st' = writes s1 @ ws2" "tiles p1 ws2 (end + 1)" by blast
    from w1(2) w2(2) have "tiles pos (ws1 @ ws2) (end + 1)" by (rule tiles_append)
    moreover have "writes st' = writes st @ (ws1 @ ws2)" using w1(1) w2(1) by simp
    ultimately show ?thesis by blast
  qed
qed

lemma take_drop_write_at:
  "take (length data) (drop off (write_at off data f)) = data"
  by (simp add: write_at_def)

text \<open>
  As long as no answer declares a \<open>Content-Range\<close> start ahead of the requested
  cursor, a \<open>fetch_range\<close> that returns has done what the final guard is there for: the
  progress counter has grown by exactly \<open>end - start + 1\<close> over all attempts, the writes
  tile \<open>[start, end]\<close> from \<open>start\<close> without gap or overlap (a retry resumes at the
  cursor, not at the segment start), and the segment of the file holds exactly the
  bytes received, in the order received.
\<close>

lemma fetch_range_success_complete:
  assumes run: "fetch_range start end max_retries srv st = Some (Returned, st')"
    and seg: "start \<le> end"
    and nojump: "\<forall>answer \<in> set srv. \<forall>p. start \<le> p \<and> p \<le> end \<longrightarrow> \<not> jumps_ahead p (answer p end)"
  shows "prog_done st' = prog_done st + (end - start + 1)
       \<and> (\<exists>ws. writes st' = writes st @ ws \<and> tiles start ws (end + 1)
              \<and> fdata st' = write_at (nat start) (concat (map snd ws)) (fdata st)
              \<and> take (nat (end - start + 1)) (drop (nat start) (fdata st')) = concat (map snd ws))"
proof -
  from run have loop: "fetch_loop start end max_retries 0 1 start srv st = Some (Returned, st')"
    by (simp add: fetch_range_def)
  from fetch_loop_trace[OF loop] obtain ws where ws:
    "writes st' = writes st @ ws" "ascending (max 0 start) ws (end + 1)"
    "prog_done st' = prog_done st + written ws" "fdata st' = apply_writes ws (fdata st)"
    by blast
  from fetch_loop_tiles[OF loop _ nojump] seg obtain ws' where
    "writes st' = writes st @ ws'" "tiles start ws' (end + 1)" by auto
  with ws(1) have t: "tiles start ws (end + 1)" by simp
  then have wr: "written ws = end + 1 - start" by (rule tiles_written)
  from t seg have ne: "ws \<noteq> []" by auto
  then obtain d rest where "ws = (start, d) # rest" using t by (cases ws) auto
  with ws(2) have nonneg: "0 \<le> start" by simp
  have f: "fdata st' = write_at (nat start) (concat (map snd ws)) (fdata st)"
    using tiles_apply_writes[OF t ne nonneg] ws(4) by simp
  have "length (concat (map snd ws)) = nat (end - start + 1)"
    using wr by (simp add: written_def)
  then have "take (nat (end - start + 1)) (drop (nat start) (fdata st')) = concat (map snd ws)"
    using take_drop_write_at[of "concat (map snd ws)" "nat start" "fdata st"] f by simp
  with ws(1,3) wr t f show ?thesis by auto
qed


text \<open>A run with a timeout in the middle of the first body: the second request asks
  for the rest, and the counter ends at 4.\<close>

lemma fetch_range_success_complete_example:
  "fetch_range 2 5 3
      [\<lambda>pos end. Response 206 (Some (nat pos)) [[1, 2]] ReadTimeout,
       \<lambda>pos end. Response 206 (Some (nat pos)) [[3, 4, 5]] EOF]
      \<lparr>fdata = [0, 0, 0, 0, 0, 0, 0, 0], prog_done = 0, writes = [], sleeps = []\<rparr>
    = Some (Returned, \<lparr>fdata = [0, 0, 1, 2, 3, 4, 0, 0], prog_done = 4,
                        writes = [(2, [1, 2]), (4, [3, 4])], sleeps = [1]\<rparr>)
   \<and> (2::int) \<le> 5
   \<and> (4::int) = 0 + (5 - 2 + 1)
   \<and> (\<exists>ws. [(2, [1, 2]), (4, [3, 4])] = [] @ ws \<and> tiles 2 ws (5 + 1)
          \<and> [0, 0, 1, 2, 3, 4, 0, 0] = write_at (nat 2) (concat (map snd ws)) [0, 0, 0, 0, 0, 0, 0, 0]
          \<and> take (nat (5 - 2 + 1)) (drop (nat 2) [0, 0, 1, 2, 3, 4, 0, 0]) = concat (map snd ws))"
proof -
  have run: "fetch_range 2 5 3
      [\<lambda>pos end. Response 206 (Some (nat pos)) [[1, 2]] ReadTimeout,
       \<lambda>pos end. Response 206 (Some (nat pos)) [[3, 4, 5]] EOF]
      \<lparr>fdata = [0, 0, 0, 0, 0, 0, 0, 0], prog_done = 0, writes = [], sleeps = []\<rparr>
    = Some (Returned, \<lparr>fdata = [0, 0, 1, 2, 3, 4, 0, 0], prog_done = 4,
                        writes = [(2, [1, 2]), (4, [3, 4])], sleeps = [1]\<rparr>)"
    by (simp add: fetch_range_def try_request_def sync_cursor_def final_guard_def
          seek_write_def prog_add_def sleep_def write_at_def)
  have seg: "(2::int) \<le> 5" by simp
  have nj: "\<forall>answer \<in> set [\<lambda>pos end. Response 206 (Some (nat pos)) [[1, 2]] ReadTimeout,
                        \<lambda>pos end. Response 206 (Some (nat pos)) [[3, 4, 5 :: byte]] EOF].
         \<forall>p. 2 \<le> p \<and> p \<le> 5 \<longrightarrow> \<not> jumps_ahead p (answer p 5)"
    by (simp add: jumps_ahead_def sync_cursor_def)
  note res = fetch_range_success_complete[OF run seg nj, unfolded fstate.select_convs]
  show ?thesis
    using run seg res[THEN conjunct1] res[THEN conjunct2] by - (intro conjI, assumption+)
qed

text \<open>
  Claim C7. The claim says that whenever \<open>fetch_range\<close> returns for a segment
  \<open>[start, end]\<close>, every byte of the segment has been written at its offset and the
  progress counter has grown by exactly \<open>end - start + 1\<close>. The code at an input where
  it does not: the segment \<open>[0, 3]\<close>, and the server answers the request for
  \<open>bytes=0-3\<close> with 206, \<open>Content-Range: bytes 2-3/4\<close> and two bytes. Lines 141-143
  move the cursor to 2, the two bytes are written there, the cursor reaches 4 and the
  final guard (lines 170-171, "if slice is not fully written, raise") lets the call
  return: offsets 0 and 1 were never written and the counter grew by 2, not 4.
  In a whole download of the four bytes \<open>7 7 8 8\<close> in chunks of 2 onto an empty disk,
  such an answer for the second segment makes the download return with the file
  \<open>7 7 0 8\<close> and the metadata removed.
\<close>

theorem forward_jump_returns_with_hole:
  "fetch_range 0 3 5 [\<lambda>pos end. Response 206 (Some 2) [[7, 8]] EOF]
      \<lparr>fdata = [0, 0, 0, 0], prog_done = 0, writes = [], sleeps = []\<rparr>
    = Some (Returned, \<lparr>fdata = [0, 0, 7, 8], prog_done = 2,
                        writes = [(2, [7, 8])], sleeps = []\<rparr>)
   \<and> download_segmented ''u'' 4 2 3 \<lparr>etag = Some ''B'', last_modified = None\<rparr>
        (\<lambda>i. if i = 1 then [\<lambda>pos end. Response 206 (Some 3) [[8]] EOF]
             else [range_server [7, 7, 8, 8]])
        \<lparr>out_file = None, meta_file = None\<rparr>
      = Some (Returned, \<lparr>out_file = Some [7, 7, 0, 8], meta_file = None\<rparr>)"
  by (simp add: download_segmented_def plan_ranges_def plan_loop.simps done_idx_def
        preallocate_def tasks_def already_def worker_def mark_done_def cleanup_def
        range_server_def fetch_range_def try_request_def sync_cursor_def final_guard_def
        seek_write_def prog_add_def write_at_def upt_rec)

subsection \<open>Which bytes a response body contributes\<close>

lemma consume_body_step:
  assumes "pos \<le> end" and "0 < min (int (length chunk)) (end - pos + 1)" and "0 \<le> pos"
  shows "consume_body end (chunk # chunks) fin (pos, st)
           = consume_body end chunks fin
               (pos + min (int (length chunk)) (end - pos + 1),
                prog_add (min (int (length chunk)) (end - pos + 1))
                  (seek_write pos (take (nat (min (int (length chunk)) (end - pos + 1))) chunk) st))"
proof -
  from assms have c: "\<not> pos > end" "\<not> min (int (length chunk)) (end - pos + 1) \<le> 0" "\<not> pos < 0"
    by linarith+
  show ?thesis by (simp only: consume_body.simps Let_def c if_False)
qed

lemma consume_body_skip:
  assumes "\<not> (pos \<le> end \<and> 0 < min (int (length chunk)) (end - pos + 1) \<and> 0 \<le> pos)"
    and "consume_body end (chunk # chunks) fin (pos, st) = (r, pos', st')"
  shows "pos' = pos \<and> st' = st"
  using assms by (auto simp: Let_def split: if_splits)

lemma consume_body_data:
  "consume_body end chunks fin (pos, st) = (r, pos', st') \<Longrightarrow> writes st' = writes st @ ws \<Longrightarrow>
     concat (map snd ws) = take (nat (pos' - pos)) (concat chunks)"
proof (induction chunks arbitrary: pos st ws)
  case Nil
  then show ?case by (auto split: body_end.splits)
next
  case (Cons chunk chunks)
  define want where "want = min (int (length chunk)) (end - pos + 1)"
  show ?case
  proof (cases "pos \<le> end \<and> 0 < want \<and> 0 \<le> pos")
    case False
    from consume_body_skip[OF False[unfolded want_def] Cons.prems(1)] Cons.prems(2)
    show ?thesis by simp
  next
    case True
    define d where "d = take (nat want) chunk"
    define st1 where "st1 = prog_add want (seek_write pos d st)"
    have st1: "writes st1 = writes st @ [(pos, d)]"
      by (simp add: st1_def prog_add_def seek_write_def)
    have rec: "consume_body end chunks fin (pos + want, st1) = (r, pos', st')"
      using consume_body_step[of pos "end" chunk chunks fin st] True Cons.prems(1)
      by (simp add: want_def st1_def d_def)
    from consume_body_effect[OF rec] obtain ws' where ws':
      "writes st' = writes st1 @ ws'" "tiles (pos + want) ws' pos'"
      "ws' \<noteq> [] \<longrightarrow> pos' \<le> end + 1"
      by blast
    from ws'(1) st1 Cons.prems(2) have ws: "ws = (pos, d) # ws'" by simp
    from Cons.IH[OF rec ws'(1)]
    have ih: "concat (map snd ws') = take (nat (pos' - (pos + want))) (concat chunks)" .
    from ws'(2) have le: "pos + want \<le> pos'" by (rule tiles_le)
    show ?thesis
    proof (cases "want = int (length chunk)")
      case True
      then have "d = chunk" by (simp add: d_def)
      moreover have "nat (pos' - pos) - length chunk = nat (pos' - (pos + want))"
        using True le by simp
      moreover have "length chunk \<le> nat (pos' - pos)" using True le by simp
      ultimately show ?thesis using ws ih by simp
    next
      case False
      then have w: "want = end - pos + 1" "want < int (length chunk)"
        by (auto simp: want_def)
      have "pos' = pos + want"
      proof (cases "ws' = []")
        case True
        with ws'(2) show ?thesis by simp
      next
        case False
        with ws'(3) le w(1) show ?thesis by simp
      qed
      with ih have "concat (map snd ws') = []" by simp
      moreover have "take (nat (pos' - pos)) (chunk @ concat chunks) = d"
        using \<open>pos' = pos + want\<close> w(2) by (simp add: d_def)
      ultimately show ?thesis using ws by simp
    qed
  qed
qed

lemma consume_body_EOF:
  "\<forall>c \<in> set chunks. c \<noteq> [] \<Longrightarrow> 0 \<le> pos \<Longrightarrow> pos \<le> end + 1 \<Longrightarrow>
     \<exists>st'. consume_body end chunks EOF (pos, st)
             = (None, min (end + 1) (pos + int (length (concat chunks))), st')"
proof (induction chunks arbitrary: pos st)
  case Nil
  then show ?case by simp
next
  case (Cons chunk chunks)
  define want where "want = min (int (length chunk)) (end - pos + 1)"
  show ?case
  proof (cases "pos \<le> end")
    case False
    with Cons.prems(3) have "pos = end + 1" by simp
    then show ?thesis by simp
  next
    case True
    from Cons.prems(1) have ne: "chunk \<noteq> []" and rest: "\<forall>c \<in> set chunks. c \<noteq> []" by auto
    from ne True have pos_want: "0 < want" by (simp add: want_def)
    have "pos + want \<le> end + 1" by (simp add: want_def)
    moreover have "0 \<le> pos + want" using pos_want Cons.prems(2) by simp
    ultimately obtain st' where
      "consume_body end chunks EOF (pos + want, prog_add want (seek_write pos (take (nat want) chunk) st))
         = (None, min (end + 1) (pos + want + int (length (concat chunks))), st')"
      using Cons.IH[OF rest] by blast
    moreover have "min (end + 1) (pos + want + int (length (concat chunks)))
                 = min (end + 1) (pos + int (length (concat (chunk # chunks))))"
      by (auto simp: want_def min_def)
    ultimately show ?thesis
      using consume_body_step[of pos "end" chunk chunks EOF st] True pos_want Cons.prems(2)
      by (simp add: want_def)
  qed
qed


text \<open>
  Claim C10. When a ranged request is answered with status 200, the body (which
  starts at resource offset 0) is written from the current cursor on: with the cursor at
  \<open>pos\<close>, body byte \<open>k\<close> lands at file offset \<open>pos + k\<close>, the body is cut at the segment
  end, and once \<open>end - pos + 1\<close> body bytes are consumed the fetch returns as a success.
  The body is read without an exception and in non-empty chunks, as \<open>iter_chunked\<close>
  yields them.
\<close>

theorem status_200_body_written_at_cursor:
  assumes pos: "0 \<le> pos" "pos \<le> end"
    and ans: "answer pos end = Response 200 cr chunks EOF"
    and ne: "\<forall>c \<in> set chunks. c \<noteq> []"
    and enough: "end - pos + 1 \<le> int (length (concat chunks))"
  shows "\<exists>st'. fetch_loop start end max_retries attempt backoff pos (answer # srv) st
                  = Some (Returned, st')
           \<and> fdata st' = write_at (nat pos) (take (nat (end - pos + 1)) (concat chunks)) (fdata st)
           \<and> (\<forall>k < nat (end - pos + 1). fdata st' ! (nat pos + k) = concat chunks ! k)
           \<and> prog_done st' = prog_done st + (end - pos + 1)"
proof -
  define n where "n = nat (end - pos + 1)"
  from consume_body_EOF[OF ne pos(1), of "end" st] pos(2) enough
  obtain st' where body: "consume_body end chunks EOF (pos, st) = (None, end + 1, st')"
    by (auto simp: min_def)
  then have tr: "try_request end pos (answer pos end) st = (Normal, end + 1, st')"
    by (simp add: ans try_request_def sync_cursor_def)
  have run: "fetch_loop start end max_retries attempt backoff pos (answer # srv) st
               = Some (Returned, st')"
    using pos(2) tr by (simp add: fetch_loop_stop final_guard_def)
  from consume_body_effect[OF body] obtain ws where ws:
    "writes st' = writes st @ ws" "tiles pos ws (end + 1)"
    "prog_done st' = prog_done st + (end + 1 - pos)" "fdata st' = apply_writes ws (fdata st)"
    by blast
  have "end + 1 - pos = end - pos + 1" by simp
  with consume_body_data[OF body ws(1)]
  have data: "concat (map snd ws) = take n (concat chunks)" by (simp only: n_def)
  from ws(2) pos(2) have "ws \<noteq> []" by auto
  define body_cut where "body_cut = take n (concat chunks)"
  from tiles_apply_writes[OF ws(2) \<open>ws \<noteq> []\<close> pos(1)] ws(4) data
  have f: "fdata st' = write_at (nat pos) body_cut (fdata st)" by (simp add: body_cut_def)
  have len: "length body_cut = n" using enough by (simp add: n_def body_cut_def)
  have nth: "\<forall>k < n. fdata st' ! (nat pos + k) = concat chunks ! k"
  proof (intro allI impI)
    fix k assume k: "k < n"
    have "write_at (nat pos) body_cut (fdata st) ! (nat pos + k) = body_cut ! (nat pos + k - nat pos)"
      by (rule write_at_nth_inside) (use k len in linarith)+
    with k f show "fdata st' ! (nat pos + k) = concat chunks ! k" by (simp add: body_cut_def)
  qed
  have "prog_done st' = prog_done st + (end - pos + 1)" using ws(3) by simp
  with run f nth show ?thesis unfolding n_def body_cut_def by blast
qed


text \<open>A six-byte segment \<open>[0, 5]\<close> whose first two bytes are in place: the cursor is at 2
  and the server answers 200 with a body of seven bytes.\<close>

theorem status_200_body_written_at_cursor_witness:
  "fetch_loop 0 5 3 0 1 2 [\<lambda>pos end. Response 200 None [[10, 11, 12], [13, 14, 15, 16]] EOF]
      \<lparr>fdata = [1, 2, 0, 0, 0, 0], prog_done = 2, writes = [], sleeps = []\<rparr>
    = Some (Returned, \<lparr>fdata = [1, 2, 10, 11, 12, 13], prog_done = 6,
                        writes = [(2, [10, 11, 12]), (5, [13])], sleeps = []\<rparr>)
   \<and> (\<exists>st'. fetch_loop 0 5 3 0 1 2
                 [\<lambda>pos end. Response 200 None [[10, 11, 12], [13, 14, 15, 16]] EOF]
                 \<lparr>fdata = [1, 2, 0, 0, 0, 0], prog_done = 2, writes = [], sleeps = []\<rparr>
               = Some (Returned, st')
          \<and> fdata st' = write_at (nat 2) (take (nat (5 - 2 + 1))
                            (concat [[10, 11, 12], [13, 14, 15, 16]])) [1, 2, 0, 0, 0, 0]
          \<and> (\<forall>k < nat (5 - 2 + 1).
                fdata st' ! (nat 2 + k) = concat [[10, 11, 12], [13, 14, 15, 16]] ! k)
          \<and> prog_done st' = 2 + (5 - 2 + 1))"
proof -
  have run: "fetch_loop 0 5 3 0 1 2
      [\<lambda>pos end. Response 200 None [[10, 11, 12], [13, 14, 15, 16]] EOF]
      \<lparr>fdata = [1, 2, 0, 0, 0, 0], prog_done = 2, writes = [], sleeps = []\<rparr>
    = Some (Returned, \<lparr>fdata = [1, 2, 10, 11, 12, 13], prog_done = 6,
                        writes = [(2, [10, 11, 12]), (5, [13])], sleeps = []\<rparr>)"
    by (simp add: try_request_def sync_cursor_def final_guard_def
          seek_write_def prog_add_def write_at_def)
  have h: "(0::int) \<le> 2" "(2::int) \<le> 5"
    "(\<lambda>pos end. Response 200 None [[10, 11, 12], [13, 14, 15, 16]] EOF) 2 5
       = Response 200 None [[10, 11, 12], [13, 14, 15, 16]] EOF"
    "\<forall>c \<in> set [[10, 11, 12], [13, 14, 15, 16 :: byte]]. c \<noteq> []"
    "(5::int) - 2 + 1 \<le> int (length (concat [[10, 11, 12], [13, 14, 15, 16 :: byte]]))"
    by simp_all
  note res = status_200_body_written_at_cursor
    [where answer = "\<lambda>pos end. Response 200 None [[10, 11, 12], [13, 14, 15, 16]] EOF"
       and start = 0 and max_retries = 3 and attempt = 0 and backoff = 1 and srv = "[]"
       and st = "\<lparr>fdata = [1, 2, 0, 0, 0, 0], prog_done = 2, writes = [], sleeps = []\<rparr>",
     OF h, unfolded fstate.select_convs]
  show ?thesis using run res by - (rule conjI, assumption+)
qed

subsection \<open>The declared start of a 206 answer\<close>






subsection \<open>Timeouts, backoff and the attempt counter\<close>

lemma double_capped: "min (min (2 ^ i) 10 * 2) 10 = min (2 ^ Suc i) (10::int)"
  by (simp add: min_def)

lemma sleep_sleeps:
  "sleep b st\<lparr>sleeps := sleeps (sleep b st) @ ts\<rparr> = st\<lparr>sleeps := sleeps st @ b # ts\<rparr>"
  by (simp add: sleep_def)

lemma conn_timeouts:
  "pos \<le> end \<Longrightarrow> a + int k \<le> mr \<Longrightarrow>
     fetch_loop start end mr a (min (2 ^ i) 10) pos (replicate k (\<lambda>p e. ConnTimeout) @ srv) st
       = fetch_loop start end mr (a + int k) (min (2 ^ (i + k)) 10) pos srv
           (st\<lparr>sleeps := sleeps st @ map (\<lambda>j. min (2 ^ j) 10) [i ..< i + k]\<rparr>)"
proof (induction k arbitrary: a i st)
  case 0
  then show ?case by simp
next
  case (Suc k)
  from Suc.prems have le: "a + 1 \<le> mr" "(a + 1) + int k \<le> mr" by simp_all
  have "fetch_loop start end mr a (min (2 ^ i) 10) pos
          (replicate (Suc k) (\<lambda>p e. ConnTimeout) @ srv) st
      = fetch_loop start end mr (a + 1) (min (2 ^ Suc i) 10) pos
          (replicate k (\<lambda>p e. ConnTimeout) @ srv) (sleep (min (2 ^ i) 10) st)"
    using Suc.prems(1) le(1) by (simp add: try_request_def double_capped del: power_Suc)
  also have "\<dots> = fetch_loop start end mr (a + 1 + int k) (min (2 ^ (Suc i + k)) 10) pos srv
          (sleep (min (2 ^ i) 10) st
             \<lparr>sleeps := sleeps (sleep (min (2 ^ i) 10) st)
                          @ map (\<lambda>j. min (2 ^ j) 10) [Suc i ..< Suc i + k]\<rparr>)"
    by (rule Suc.IH[OF Suc.prems(1) le(2)])
  also have "sleep (min (2 ^ i) 10) st
             \<lparr>sleeps := sleeps (sleep (min (2 ^ i) 10) st)
                          @ map (\<lambda>j. min (2 ^ j) 10) [Suc i ..< Suc i + k]\<rparr>
      = st\<lparr>sleeps := sleeps st @ map (\<lambda>j. min (2 ^ j) 10) [i ..< i + Suc k]\<rparr>"
    by (simp add: sleep_sleeps upt_conv_Cons del: power_Suc upt_Suc)
  finally have "fetch_loop start end mr a (min (2 ^ i) 10) pos
          (replicate (Suc k) (\<lambda>p e. ConnTimeout) @ srv) st
      = fetch_loop start end mr (a + 1 + int k) (min (2 ^ (Suc i + k)) 10) pos srv
          (st\<lparr>sleeps := sleeps st @ map (\<lambda>j. min (2 ^ j) 10) [i ..< i + Suc k]\<rparr>)" .
  moreover have "a + 1 + int k = a + int (Suc k)" "Suc i + k = i + Suc k" by simp_all
  ultimately show ?case by (simp only:)
qed


text \<open>
  Claim C8, amended. A timeout while \<open>pos \<le> end\<close> is retried after a sleep of the
  current backoff, which starts at 1 second, doubles each time and is capped at 10
  seconds; when the attempt counter exceeds \<open>max_retries\<close> the timeout is raised to the
  caller. The attempt counter and the backoff go back to 0 and 1 when an answer's body is
  read to its end without an exception, whatever it delivered; chunks consumed from an
  answer that then times out do not reset them.
  The four parts: \<open>k \<le> max_retries\<close> timeouts in a row from a fresh call sleep
  \<open>1, 2, 4, 8, 10, 10, \<dots>\<close>; one timeout more than \<open>max_retries\<close> raises; an answer
  whose body times out counts as an attempt wherever the cursor got to; an answer read to
  its end resets.
\<close>

theorem retry_backoff_policy:
  "(start \<le> end \<and> int k \<le> max_retries \<longrightarrow>
      fetch_range start end max_retries (replicate k (\<lambda>p e. ConnTimeout) @ srv) st
        = fetch_loop start end max_retries (int k) (min (2 ^ k) 10) start srv
            (st\<lparr>sleeps := sleeps st @ map (\<lambda>j. min (2 ^ j) 10) [0 ..< k]\<rparr>))
   \<and> (start \<le> end \<and> 0 \<le> max_retries \<longrightarrow>
      fetch_range start end max_retries
          (replicate (Suc (nat max_retries)) (\<lambda>p e. ConnTimeout) @ srv) st
        = Some (Raised TimeoutError,
                st\<lparr>sleeps := sleeps st @ map (\<lambda>j. min (2 ^ j) 10) [0 ..< nat max_retries]\<rparr>))
   \<and> (pos \<le> end \<and> answer pos end = Response status cr chunks fin
        \<and> (status = 200 \<or> status = 206 \<or> status < 400)
        \<and> consume_body end chunks fin (sync_cursor status cr pos, st) = (Some TimeoutError, pos', st')
      \<longrightarrow> fetch_loop start end max_retries attempt backoff pos (answer # srv) st
        = (if attempt + 1 > max_retries then Some (Raised TimeoutError, st')
           else fetch_loop start end max_retries (attempt + 1) (min (backoff * 2) 10) pos' srv
                  (sleep backoff st')))
   \<and> (pos \<le> end \<and> answer pos end = Response status cr chunks fin
        \<and> (status = 200 \<or> status = 206 \<or> status < 400)
        \<and> consume_body end chunks fin (sync_cursor status cr pos, st) = (None, pos', st')
      \<longrightarrow> fetch_loop start end max_retries attempt backoff pos (answer # srv) st
        = fetch_loop start end max_retries 0 1 pos' srv st')"
proof (intro conjI impI)
  assume h: "start \<le> end \<and> int k \<le> max_retries"
  then have "fetch_loop start end max_retries 0 (min (2 ^ 0) 10) start
                (replicate k (\<lambda>p e. ConnTimeout) @ srv) st
        = fetch_loop start end max_retries (0 + int k) (min (2 ^ (0 + k)) 10) start srv
            (st\<lparr>sleeps := sleeps st @ map (\<lambda>j. min (2 ^ j) 10) [0 ..< 0 + k]\<rparr>)"
    by (intro conn_timeouts) simp_all
  then show "fetch_range start end max_retries (replicate k (\<lambda>p e. ConnTimeout) @ srv) st
        = fetch_loop start end max_retries (int k) (min (2 ^ k) 10) start srv
            (st\<lparr>sleeps := sleeps st @ map (\<lambda>j. min (2 ^ j) 10) [0 ..< k]\<rparr>)"
    by (simp add: fetch_range_def)
next
  assume h: "start \<le> end \<and> 0 \<le> max_retries"
  define n where "n = nat max_retries"
  define st1 where "st1 = st\<lparr>sleeps := sleeps st @ map (\<lambda>j. min (2 ^ j) 10) [0 ..< n]\<rparr>"
  have n: "int n = max_retries" using h by (simp add: n_def)
  have "fetch_loop start end max_retries 0 (min (2 ^ 0) 10) start
                (replicate n (\<lambda>p e. ConnTimeout) @ (\<lambda>p e. ConnTimeout) # srv) st
        = fetch_loop start end max_retries (0 + int n) (min (2 ^ (0 + n)) 10) start
            ((\<lambda>p e. ConnTimeout) # srv)
            (st\<lparr>sleeps := sleeps st @ map (\<lambda>j. min (2 ^ j) 10) [0 ..< 0 + n]\<rparr>)"
    using h n by (intro conn_timeouts) simp_all
  also have "\<dots> = Some (Raised TimeoutError, st1)"
    using h n by (simp add: try_request_def st1_def)
  finally show "fetch_range start end max_retries
          (replicate (Suc (nat max_retries)) (\<lambda>p e. ConnTimeout) @ srv) st
        = Some (Raised TimeoutError,
                st\<lparr>sleeps := sleeps st @ map (\<lambda>j. min (2 ^ j) 10) [0 ..< nat max_retries]\<rparr>)"
    by (simp add: fetch_range_def n_def st1_def replicate_app_Cons_same)
next
  assume "pos \<le> end \<and> answer pos end = Response status cr chunks fin
        \<and> (status = 200 \<or> status = 206 \<or> status < 400)
        \<and> consume_body end chunks fin (sync_cursor status cr pos, st) = (Some TimeoutError, pos', st')"
  then show "fetch_loop start end max_retries attempt backoff pos (answer # srv) st
        = (if attempt + 1 > max_retries then Some (Raised TimeoutError, st')
           else fetch_loop start end max_retries (attempt + 1) (min (backoff * 2) 10) pos' srv
                  (sleep backoff st'))"
    by (auto simp: try_request_def)
next
  assume "pos \<le> end \<and> answer pos end = Response status cr chunks fin
        \<and> (status = 200 \<or> status = 206 \<or> status < 400)
        \<and> consume_body end chunks fin (sync_cursor status cr pos, st) = (None, pos', st')"
  then show "fetch_loop start end max_retries attempt backoff pos (answer # srv) st
        = fetch_loop start end max_retries 0 1 pos' srv st'"
    by (auto simp: try_request_def)
qed

text \<open>
  The four parts at \<open>max_retries = 5\<close> for the segment \<open>[0, 3]\<close>: five timeouts and then
  a full answer; six timeouts; at attempt 2 and backoff 4, an answer that delivers one
  byte and times out, then the rest; and an answer that delivers one byte and ends,
  after which a timeout sleeps 1 second again.
\<close>

theorem retry_backoff_policy_witness:
  "fetch_range 0 3 5
      (replicate 5 (\<lambda>p e. ConnTimeout) @ [\<lambda>p e. Response 206 (Some (nat p)) [[1, 2, 3, 4]] EOF])
      \<lparr>fdata = [0, 0, 0, 0], prog_done = 0, writes = [], sleeps = []\<rparr>
    = Some (Returned, \<lparr>fdata = [1, 2, 3, 4], prog_done = 4, writes = [(0, [1, 2, 3, 4])],
                        sleeps = [1, 2, 4, 8, 10]\<rparr>)
   \<and> fetch_range 0 3 5 (replicate (Suc (nat 5)) (\<lambda>p e. ConnTimeout) @ [])
      \<lparr>fdata = [0, 0, 0, 0], prog_done = 0, writes = [], sleeps = []\<rparr>
    = Some (Raised TimeoutError,
            \<lparr>fdata = [0, 0, 0, 0], prog_done = 0, writes = [], sleeps = [1, 2, 4, 8, 10]\<rparr>)
   \<and> fetch_loop 0 3 5 2 4 0
      [\<lambda>p e. Response 206 (Some (nat p)) [[1]] ReadTimeout,
       \<lambda>p e. Response 206 (Some (nat p)) [[2, 3, 4]] EOF]
      \<lparr>fdata = [0, 0, 0, 0], prog_done = 0, writes = [], sleeps = []\<rparr>
    = Some (Returned, \<lparr>fdata = [1, 2, 3, 4], prog_done = 4,
                        writes = [(0, [1]), (1, [2, 3, 4])], sleeps = [4]\<rparr>)
   \<and> fetch_loop 0 3 5 2 4 0
      [\<lambda>p e. Response 206 (Some (nat p)) [[1]] EOF,
       \<lambda>p e. ConnTimeout,
       \<lambda>p e. Response 206 (Some (nat p)) [[2, 3, 4]] EOF]
      \<lparr>fdata = [0, 0, 0, 0], prog_done = 0, writes = [], sleeps = []\<rparr>
    = Some (Returned, \<lparr>fdata = [1, 2, 3, 4], prog_done = 4,
                        writes = [(0, [1]), (1, [2, 3, 4])], sleeps = [1]\<rparr>)"
proof -
  let ?st0 = "\<lparr>fdata = [0, 0, 0, 0 :: byte], prog_done = 0, writes = [], sleeps = []\<rparr>"
  let ?T = "\<lambda>(p::int) (e::int). ConnTimeout"
  let ?full = "\<lambda>(p::int) (e::int). Response 206 (Some (nat p)) [[1, 2, 3, 4]] EOF"
  let ?cut = "\<lambda>(p::int) (e::int). Response 206 (Some (nat p)) [[1]] ReadTimeout"
  let ?short = "\<lambda>(p::int) (e::int). Response 206 (Some (nat p)) [[1]] EOF"
  let ?rest = "\<lambda>(p::int) (e::int). Response 206 (Some (nat p)) [[2, 3, 4]] EOF"
  note ev = try_request_def sync_cursor_def final_guard_def seek_write_def prog_add_def
    sleep_def write_at_def
  have a: "fetch_range 0 3 5 (replicate 5 ?T @ [?full]) ?st0
      = fetch_loop 0 3 5 (int 5) (min (2 ^ 5) 10) 0 [?full]
          (?st0\<lparr>sleeps := sleeps ?st0 @ map (\<lambda>j. min (2 ^ j) 10) [0 ..< 5]\<rparr>)"
    using retry_backoff_policy[where start = 0 and max_retries = 5 and k = 5 and srv = "[?full]"
        and st = ?st0, THEN conjunct1]
    by simp
  have b: "fetch_range 0 3 5 (replicate (Suc (nat 5)) ?T @ []) ?st0
      = Some (Raised TimeoutError,
              ?st0\<lparr>sleeps := sleeps ?st0 @ map (\<lambda>j. min (2 ^ j) 10) [0 ..< nat 5]\<rparr>)"
    using retry_backoff_policy[where start = 0 and max_retries = 5 and srv = "[]"
        and st = ?st0, THEN conjunct2, THEN conjunct1]
    by simp
  have c: "fetch_loop 0 3 5 2 4 0 [?cut, ?rest] ?st0
      = (if (2::int) + 1 > 5 then Some (Raised TimeoutError, ?st0\<lparr>fdata := [1, 0, 0, 0], prog_done := 1, writes := [(0, [1])]\<rparr>)
         else fetch_loop 0 3 5 (2 + 1) (min (4 * 2) 10) 1 [?rest]
                (sleep 4 (?st0\<lparr>fdata := [1, 0, 0, 0], prog_done := 1, writes := [(0, [1])]\<rparr>)))"
    by (rule retry_backoff_policy[where pos = 0 and status = 206 and cr = "Some 0"
          and chunks = "[[1]]" and fin = ReadTimeout,
          THEN conjunct2, THEN conjunct2, THEN conjunct1, rule_format])
       (simp add: ev)
  have d: "fetch_loop 0 3 5 2 4 0 [?short, ?T, ?rest] ?st0
      = fetch_loop 0 3 5 0 1 1 [?T, ?rest]
          (?st0\<lparr>fdata := [1, 0, 0, 0], prog_done := 1, writes := [(0, [1])]\<rparr>)"
    by (rule retry_backoff_policy[where pos = 0 and status = 206 and cr = "Some 0"
          and chunks = "[[1]]" and fin = EOF,
          THEN conjunct2, THEN conjunct2, THEN conjunct2, rule_format])
       (simp add: ev)
  have delays: "map (\<lambda>j. min (2 ^ j) (10::int)) [0 ..< 5] = [1, 2, 4, 8, 10]"
    by (simp add: eval_nat_numeral)
  show ?thesis
    by (intro conjI) (simp_all only: a b c d, simp_all add: ev delays)
qed

text \<open>
  The claim as stated fails in two ways.
  \<^item> Consuming a chunk does not reset the counter when the same answer then times out.
    With \<open>max_retries = 1\<close>, two answers that each deliver one byte and then time out
    exhaust the retries, although the cursor advanced each time; with \<open>max_retries = 5\<close>
    the sleeps between three such answers are 1, 2 and 4 seconds.
  \<^item> A drop that is not a timeout is not retried at all: line 162 catches only the two
    timeout classes, so a connection error before the answer, or in the middle of a
    body, ends the call at once, without a sleep and with the retries unused, although
    the next answer would have delivered the rest. (\<open>download_single\<close> retries on any
    exception, line 275.) The amended claim speaks of timeouts only and says nothing
    about this case.
\<close>

theorem no_reset_and_no_retry_counterexample:
  "fetch_range 0 3 1
      [\<lambda>p e. Response 206 (Some (nat p)) [[1]] ReadTimeout,
       \<lambda>p e. Response 206 (Some (nat p)) [[2]] ReadTimeout]
      \<lparr>fdata = [0, 0, 0, 0], prog_done = 0, writes = [], sleeps = []\<rparr>
    = Some (Raised TimeoutError,
            \<lparr>fdata = [1, 2, 0, 0], prog_done = 2, writes = [(0, [1]), (1, [2])], sleeps = [1]\<rparr>)
   \<and> fetch_range 0 3 5
      [\<lambda>p e. Response 206 (Some (nat p)) [[1]] ReadTimeout,
       \<lambda>p e. Response 206 (Some (nat p)) [[2]] ReadTimeout,
       \<lambda>p e. Response 206 (Some (nat p)) [[3]] ReadTimeout,
       \<lambda>p e. Response 206 (Some (nat p)) [[4]] EOF]
      \<lparr>fdata = [0, 0, 0, 0], prog_done = 0, writes = [], sleeps = []\<rparr>
    = Some (Returned,
            \<lparr>fdata = [1, 2, 3, 4], prog_done = 4,
              writes = [(0, [1]), (1, [2]), (2, [3]), (3, [4])], sleeps = [1, 2, 4]\<rparr>)
   \<and> fetch_range 0 3 5
      [\<lambda>p e. ConnError, \<lambda>p e. Response 206 (Some (nat p)) [[1, 2, 3, 4]] EOF]
      \<lparr>fdata = [0, 0, 0, 0], prog_done = 0, writes = [], sleeps = []\<rparr>
    = Some (Raised ClientError,
            \<lparr>fdata = [0, 0, 0, 0], prog_done = 0, writes = [], sleeps = []\<rparr>)
   \<and> fetch_range 0 3 5
      [\<lambda>p e. Response 206 (Some (nat p)) [[1]] ReadError,
       \<lambda>p e. Response 206 (Some (nat p)) [[2, 3, 4]] EOF]
      \<lparr>fdata = [0, 0, 0, 0], prog_done = 0, writes = [], sleeps = []\<rparr>
    = Some (Raised ClientError,
            \<lparr>fdata = [1, 0, 0, 0], prog_done = 1, writes = [(0, [1])], sleeps = []\<rparr>)"
  by (simp add: fetch_range_def try_request_def sync_cursor_def final_guard_def
        seek_write_def prog_add_def sleep_def write_at_def)

section \<open>Properties of the resume decision\<close>

text \<open>
  Claim C3, amended. For stored metadata with matching URL and size: if the recorded
  entity tag differs from the probe's entity tag and the recorded last-modified value
  differs from the probe's as well, no stored segment index is trusted, however many
  were marked complete.
\<close>

theorem validator_mismatch_trusts_nothing:
  assumes "m_etag m \<noteq> etag v" and "m_last_modified m \<noteq> last_modified v"
  shows "done_idx (Some m) url sz v = []"
  using assms by (simp add: done_idx_def)

theorem validator_mismatch_trusts_nothing_witness:
  "Some ''a'' \<noteq> Some ''b'' \<and> Some ''Mon'' \<noteq> Some ''Tue''
   \<and> done_idx (Some \<lparr>m_url = ''u'', m_size = 6, m_chunk_size = 2, m_etag = Some ''a'',
                     m_last_modified = Some ''Mon'', m_done = [0, 1, 2]\<rparr>)
        ''u'' 6 \<lparr>etag = Some ''b'', last_modified = Some ''Tue''\<rparr> = []"
  using validator_mismatch_trusts_nothing
    [of "\<lparr>m_url = ''u'', m_size = 6, m_chunk_size = 2, m_etag = Some ''a'',
          m_last_modified = Some ''Mon'', m_done = [0, 1, 2]\<rparr>"
        "\<lparr>etag = Some ''b'', last_modified = Some ''Tue''\<rparr>" "''u''" 6]
  by simp

text \<open>
  The claim as stated fails: the decision trusts the stored indices when either
  validator matches (line 189), so a different entity tag is overruled by an equal
  last-modified value, also when the server sent none on both occasions.
\<close>

theorem etag_mismatch_still_trusted_counterexample:
  "done_idx (Some \<lparr>m_url = ''u'', m_size = 6, m_chunk_size = 2, m_etag = Some ''a'',
                   m_last_modified = Some ''Mon'', m_done = [0, 1, 2]\<rparr>)
      ''u'' 6 \<lparr>etag = Some ''b'', last_modified = Some ''Mon''\<rparr> = [0, 1, 2]
   \<and> done_idx (Some \<lparr>m_url = ''u'', m_size = 6, m_chunk_size = 2, m_etag = Some ''a'',
                   m_last_modified = None, m_done = [0, 1, 2]\<rparr>)
      ''u'' 6 \<lparr>etag = Some ''b'', last_modified = None\<rparr> = [0, 1, 2]"
  by (simp add: done_idx_def)

section \<open>Properties of the metadata updates\<close>

lemma done_of_mark_done: "done_of (mark_done url sz cs v i md) = insert i (done_of md)"
  by (auto simp: done_of_def mark_done_def split: option.splits)

lemma sched_invI:
  assumes "\<And>k m. k < length ws \<Longrightarrow> ws ! k = Loaded m \<Longrightarrow> run = Some k \<and> m = md"
    and "\<And>k. k < length ws \<Longrightarrow> ws ! k = Finished \<Longrightarrow> idxs ! k \<in> done_of md"
  shows "sched_inv idxs (ws, md, run)"
  unfolding sched_inv_def prod.case using assms by blast

lemma sched_invD:
  assumes "sched_inv idxs (ws, md, run)"
  shows "k < length ws \<Longrightarrow> ws ! k = Loaded m \<Longrightarrow> run = Some k \<and> m = md"
    and "k < length ws \<Longrightarrow> ws ! k = Finished \<Longrightarrow> idxs ! k \<in> done_of md"
  using assms unfolding sched_inv_def prod.case by blast+

lemma sched_inv_step:
  assumes "sched url sz cs v conc idxs c c'" and "sched_inv idxs c"
  shows "sched_inv idxs c'"
  using assms(1)
proof (cases rule: sched.cases)
  case (acquire k ws md)
  note inv = sched_invD[OF assms(2)[unfolded acquire(1)]]
  show ?thesis unfolding acquire(2)
  proof (rule sched_invI)
    fix j m assume j: "j < length (ws[k := Fetching])" "ws[k := Fetching] ! j = Loaded m"
    then have "j \<noteq> k" by auto
    with j have "j < length ws" "ws ! j = Loaded m" by simp_all
    from inv(1)[OF this] show "None = Some j \<and> m = md" by simp
  next
    fix j assume j: "j < length (ws[k := Fetching])" "ws[k := Fetching] ! j = Finished"
    then have "j \<noteq> k" by auto
    with j have "j < length ws" "ws ! j = Finished" by simp_all
    from inv(2)[OF this] show "idxs ! j \<in> done_of md" .
  qed
next
  case (load k ws md)
  note inv = sched_invD[OF assms(2)[unfolded load(1)]]
  show ?thesis unfolding load(2)
  proof (rule sched_invI)
    fix j m assume j: "j < length (ws[k := Loaded md])" "ws[k := Loaded md] ! j = Loaded m"
    show "Some k = Some j \<and> m = md"
    proof (cases "j = k")
      case True
      with j load(3) show ?thesis by simp
    next
      case False
      with j have "j < length ws" "ws ! j = Loaded m" by simp_all
      from inv(1)[OF this] show ?thesis by simp
    qed
  next
    fix j assume j: "j < length (ws[k := Loaded md])" "ws[k := Loaded md] ! j = Finished"
    then have "j \<noteq> k" by auto
    with j have "j < length ws" "ws ! j = Finished" by simp_all
    from inv(2)[OF this] show "idxs ! j \<in> done_of md" .
  qed
next
  case (save k ws m md)
  note inv = sched_invD[OF assms(2)[unfolded save(1)]]
  from inv(1)[OF save(3,4)] have m: "m = md" by simp
  show ?thesis unfolding save(2)
  proof (rule sched_invI)
    fix j m' assume j: "j < length (ws[k := Finished])" "ws[k := Finished] ! j = Loaded m'"
    then have ne: "j \<noteq> k" by auto
    with j have "j < length ws" "ws ! j = Loaded m'" by simp_all
    from inv(1)[OF this] ne show "None = Some j \<and> m' = mark_done url sz cs v (idxs ! k) m"
      by simp
  next
    fix j assume j: "j < length (ws[k := Finished])" "ws[k := Finished] ! j = Finished"
    show "idxs ! j \<in> done_of (mark_done url sz cs v (idxs ! k) m)"
    proof (cases "j = k")
      case True
      then show ?thesis by (simp add: done_of_mark_done)
    next
      case False
      with j have "j < length ws" "ws ! j = Finished" by simp_all
      from inv(2)[OF this] m show ?thesis by (simp add: done_of_mark_done)
    qed
  qed
next
  case (fail k ws md)
  note inv = sched_invD[OF assms(2)[unfolded fail(1)]]
  show ?thesis unfolding fail(2)
  proof (rule sched_invI)
    fix j m assume j: "j < length (ws[k := Failed])" "ws[k := Failed] ! j = Loaded m"
    then have "j \<noteq> k" by auto
    with j have "j < length ws" "ws ! j = Loaded m" by simp_all
    from inv(1)[OF this] show "None = Some j \<and> m = md" by simp
  next
    fix j assume j: "j < length (ws[k := Failed])" "ws[k := Failed] ! j = Finished"
    then have "j \<noteq> k" by auto
    with j have "j < length ws" "ws ! j = Finished" by simp_all
    from inv(2)[OF this] show "idxs ! j \<in> done_of md" .
  qed
qed

lemma sched_inv_reach:
  assumes "(sched url sz cs v conc idxs)\<^sup>*\<^sup>* c c'" and "sched_inv idxs c"
  shows "sched_inv idxs c'"
  using assms
proof (induction rule: rtranclp_induct)
  case base
  then show ?case .
next
  case (step y z)
  from step.hyps(2) step.IH[OF step.prems] show ?case by (rule sched_inv_step)
qed

lemma sched_inv_init: "sched_inv idxs (replicate n Waiting, md0, None)"
  by (rule sched_invI) simp_all

text \<open>
  Claim C9. The metadata updates of completing segments are serialized. In every state
  the workers of a run can reach, in whatever order they pass the semaphore, finish or
  fail: at most one worker stands between its load and its save, no other task runs
  until it has saved, and what it loaded is still what the file holds; so no completion
  is lost, and for two finished workers the metadata file lists both indices.
\<close>

theorem completions_never_lost:
  assumes reach: "(sched url sz chunk_size v concurrency idxs)\<^sup>*\<^sup>*
                    (replicate n Waiting, md0, None) (ws, md, run)"
    and i: "i < length ws" and j: "j < length ws"
  shows "(ws ! i = Finished \<and> ws ! j = Finished \<longrightarrow>
            (\<exists>m. md = Some m \<and> idxs ! i \<in> set (m_done m) \<and> idxs ! j \<in> set (m_done m)))
       \<and> (\<forall>a b. ws ! i = Loaded a \<and> ws ! j = Loaded b \<longrightarrow> i = j \<and> run = Some i \<and> a = md)"
proof -
  from sched_inv_reach[OF reach sched_inv_init]
  have inv: "\<forall>k < length ws. \<forall>m. ws ! k = Loaded m \<longrightarrow> run = Some k \<and> m = md"
    "\<forall>k < length ws. ws ! k = Finished \<longrightarrow> idxs ! k \<in> done_of md"
    unfolding sched_inv_def prod.case by blast+
  have "\<exists>m. md = Some m \<and> idxs ! i \<in> set (m_done m) \<and> idxs ! j \<in> set (m_done m)"
    if "ws ! i = Finished" "ws ! j = Finished"
  proof -
    from inv(2) i j that have "idxs ! i \<in> done_of md" "idxs ! j \<in> done_of md" by auto
    then show ?thesis by (cases md) (auto simp: done_of_def)
  qed
  moreover have "i = j \<and> run = Some i \<and> a = md" if "ws ! i = Loaded a" "ws ! j = Loaded b" for a b
  proof -
    from inv(1)[rule_format, OF i that(1)] have ri: "run = Some i" "a = md" by simp_all
    from inv(1)[rule_format, OF j that(2)] have "run = Some j" by simp
    with ri show ?thesis by simp
  qed
  ultimately show ?thesis by blast
qed


text \<open>Two workers for the segments 3 and 5 run at the same time; the second one
  finishes first.\<close>

theorem completions_never_lost_witness:
  "(sched ''u'' 12 2 \<lparr>etag = Some ''B'', last_modified = None\<rparr> 2 [3, 5])\<^sup>*\<^sup>*
      (replicate 2 Waiting, None, None)
      ([Finished, Finished],
       Some \<lparr>m_url = ''u'', m_size = 12, m_chunk_size = 2, m_etag = Some ''B'',
              m_last_modified = None, m_done = [3, 5]\<rparr>, None)
   \<and> (\<exists>m. Some \<lparr>m_url = ''u'', m_size = 12, m_chunk_size = 2, m_etag = Some ''B'',
                   m_last_modified = None, m_done = [3, 5]\<rparr> = Some m
          \<and> [3, 5] ! 0 \<in> set (m_done m) \<and> [3, 5] ! 1 \<in> set (m_done m))"
proof -
  let ?v = "\<lparr>etag = Some ''B'', last_modified = None\<rparr>"
  let ?S = "sched ''u'' 12 2 ?v 2 [3, 5]"
  let ?m1 = "Some \<lparr>m_url = ''u'', m_size = 12, m_chunk_size = 2, m_etag = Some ''B'',
                    m_last_modified = None, m_done = [5]\<rparr>"
  let ?m2 = "Some \<lparr>m_url = ''u'', m_size = 12, m_chunk_size = 2, m_etag = Some ''B'',
                    m_last_modified = None, m_done = [3, 5]\<rparr>"
  have s1: "?S (replicate 2 Waiting, None, None) ([Fetching, Waiting], None, None)"
    using sched.acquire[of 0 "[Waiting, Waiting]" 2 "''u''" 12 2 ?v "[3, 5]" None]
    by (simp add: numeral_2_eq_2 holding_def)
  have s2: "?S ([Fetching, Waiting], None, None) ([Fetching, Fetching], None, None)"
    using sched.acquire[of 1 "[Fetching, Waiting]" 2 "''u''" 12 2 ?v "[3, 5]" None]
    by (simp add: holding_def)
  have s3: "?S ([Fetching, Fetching], None, None) ([Fetching, Loaded None], None, Some 1)"
    using sched.load[of 1 "[Fetching, Fetching]" "''u''" 12 2 ?v 2 "[3, 5]" None] by simp
  have s4: "?S ([Fetching, Loaded None], None, Some 1) ([Fetching, Finished], ?m1, None)"
    using sched.save[of 1 "[Fetching, Loaded None]" None "''u''" 12 2 ?v 2 "[3, 5]" None]
    by (simp add: mark_done_def)
  have s5: "?S ([Fetching, Finished], ?m1, None) ([Loaded ?m1, Finished], ?m1, Some 0)"
    using sched.load[of 0 "[Fetching, Finished]" "''u''" 12 2 ?v 2 "[3, 5]" ?m1] by simp
  have s6: "?S ([Loaded ?m1, Finished], ?m1, Some 0) ([Finished, Finished], ?m2, None)"
    using sched.save[of 0 "[Loaded ?m1, Finished]" ?m1 "''u''" 12 2 ?v 2 "[3, 5]" ?m1]
    by (simp add: mark_done_def)
  have reach: "?S\<^sup>*\<^sup>* (replicate 2 Waiting, None, None) ([Finished, Finished], ?m2, None)"
  proof -
    have "?S\<^sup>*\<^sup>* (replicate 2 Waiting, None, None) ([Fetching, Waiting], None, None)"
      using s1 by (rule r_into_rtranclp[where r = ?S])
    then have "?S\<^sup>*\<^sup>* (replicate 2 Waiting, None, None) ([Fetching, Fetching], None, None)"
      using s2 by (rule rtranclp.rtrancl_into_rtrancl[where r = ?S])
    then have "?S\<^sup>*\<^sup>* (replicate 2 Waiting, None, None) ([Fetching, Loaded None], None, Some 1)"
      using s3 by (rule rtranclp.rtrancl_into_rtrancl[where r = ?S])
    then have "?S\<^sup>*\<^sup>* (replicate 2 Waiting, None, None) ([Fetching, Finished], ?m1, None)"
      using s4 by (rule rtranclp.rtrancl_into_rtrancl[where r = ?S])
    then have "?S\<^sup>*\<^sup>* (replicate 2 Waiting, None, None) ([Loaded ?m1, Finished], ?m1, Some 0)"
      using s5 by (rule rtranclp.rtrancl_into_rtrancl[where r = ?S])
    then show ?thesis
      using s6 by (rule rtranclp.rtrancl_into_rtrancl[where r = ?S])
  qed
  have h: "0 < length [Finished, Finished]" "1 < length [Finished, Finished]"
    and fin: "[Finished, Finished] ! 0 = Finished \<and> [Finished, Finished] ! 1 = Finished"
    by simp_all
  from completions_never_lost[OF reach h, THEN conjunct1, rule_format, OF fin] reach
  show ?thesis by - (rule conjI, assumption+)
qed

section \<open>Properties of the resume\<close>

text \<open>
  Claim C1. The claim says that a run which is interrupted after N of M segments are
  persisted as complete and is then repeated with the same URL, path, size, chunk size
  and validators ends with the file a single pass would produce. The code at an input
  where it does not: a resource of 6 bytes in chunks of 2, whose content is now
  \<open>7 7 8 8 9 9\<close> under the validators \<open>B\<close>/\<open>Tue\<close>, and on disk the remains of an earlier
  download of the previous content \<open>1 1 2 2 3 3\<close> under \<open>A\<close>/\<open>Mon\<close>, with the segments 0
  and 1 done.
  \<^item> First run: the validators differ, so no index is trusted and all three workers are
    created. Worker 0 succeeds and marks itself done, but it adds its index to the
    \<open>done\<close> list it loads from the old file and saves that under the new validators:
    \<open>[0, 1]\<close>. Worker 1 gets a 500 and the run ends there: 2 of 3 segments are
    persisted as complete.
  \<^item> Second run, same arguments: the indices 0 and 1 are trusted, only segment 2 is
    fetched, the run returns and removes the metadata. Segment 1 still holds the old
    bytes \<open>2 2\<close>.
  \<^item> A single pass onto an empty disk gives \<open>7 7 8 8 9 9\<close>.
\<close>

theorem resume_after_stale_metadata:
  "download_segmented ''u'' 6 2 3 \<lparr>etag = Some ''B'', last_modified = Some ''Tue''\<rparr>
      (\<lambda>i. if i = 1 then [\<lambda>p e. Response 500 None [] EOF] else [range_server [7, 7, 8, 8, 9, 9]])
      \<lparr>out_file = Some [1, 1, 2, 2, 0, 0],
        meta_file = Some \<lparr>m_url = ''u'', m_size = 6, m_chunk_size = 2, m_etag = Some ''A'',
                           m_last_modified = Some ''Mon'', m_done = [0, 1]\<rparr>\<rparr>
    = Some (Raised (ClientResponseError 500),
        \<lparr>out_file = Some [7, 7, 2, 2, 0, 0],
          meta_file = Some \<lparr>m_url = ''u'', m_size = 6, m_chunk_size = 2, m_etag = Some ''B'',
                             m_last_modified = Some ''Tue'', m_done = [0, 1]\<rparr>\<rparr>)
   \<and> download_segmented ''u'' 6 2 3 \<lparr>etag = Some ''B'', last_modified = Some ''Tue''\<rparr>
      (\<lambda>i. [range_server [7, 7, 8, 8, 9, 9]])
      \<lparr>out_file = Some [7, 7, 2, 2, 0, 0],
        meta_file = Some \<lparr>m_url = ''u'', m_size = 6, m_chunk_size = 2, m_etag = Some ''B'',
                           m_last_modified = Some ''Tue'', m_done = [0, 1]\<rparr>\<rparr>
    = Some (Returned, \<lparr>out_file = Some [7, 7, 2, 2, 9, 9], meta_file = None\<rparr>)
   \<and> tasks [(0, 1), (2, 3), (4, 5)] [0, 1] = [(2, 4, 5)]
   \<and> download_segmented ''u'' 6 2 3 \<lparr>etag = Some ''B'', last_modified = Some ''Tue''\<rparr>
      (\<lambda>i. [range_server [7, 7, 8, 8, 9, 9]])
      \<lparr>out_file = None, meta_file = None\<rparr>
    = Some (Returned, \<lparr>out_file = Some [7, 7, 8, 8, 9, 9], meta_file = None\<rparr>)"
  by (simp add: download_segmented_def plan_ranges_def plan_loop.simps done_idx_def
        preallocate_def tasks_def already_def worker_def mark_done_def cleanup_def
        range_server_def fetch_range_def try_request_def sync_cursor_def final_guard_def
        seek_write_def prog_add_def write_at_def upt_rec)

subsection \<open>Resuming from an honest \<open>done\<close> list\<close>

text \<open>One request to a server that honours ranges completes the segment.\<close>

lemma fetch_range_range_server:
  assumes seg: "0 \<le> s" "s \<le> e" "e < int (length res)"
  shows "\<exists>st'. fetch_range s e mr [range_server res] st = Some (Returned, st')
           \<and> fdata st' = write_at (nat s) (take (nat (e - s + 1)) (drop (nat s) res)) (fdata st)
           \<and> prog_done st' = prog_done st + (e - s + 1)"
proof -
  define piece where "piece = take (nat (e - s + 1)) (drop (nat s) res)"
  have len: "int (length piece) = e - s + 1" using seg by (simp add: piece_def)
  then have ne: "\<forall>c \<in> set [piece]. c \<noteq> []" using seg by auto
  from consume_body_EOF[OF ne seg(1), of e st] seg(2) len
  obtain st' where body: "consume_body e [piece] EOF (s, st) = (None, e + 1, st')"
    by (auto simp: min_def)
  have cur: "sync_cursor 206 (Some (nat s)) s = s" using seg(1) by (simp add: sync_cursor_def)
  have tr: "try_request e s (range_server res s e) st = (Normal, e + 1, st')"
    using body cur by (simp add: try_request_def range_server_def piece_def)
  have run: "fetch_range s e mr [range_server res] st = Some (Returned, st')"
    using seg(2) tr by (simp add: fetch_range_def final_guard_def)
  from consume_body_effect[OF body] obtain ws where ws:
    "writes st' = writes st @ ws" "tiles s ws (e + 1)"
    "prog_done st' = prog_done st + (e + 1 - s)" "fdata st' = apply_writes ws (fdata st)"
    by blast
  have "concat (map snd ws) = take (nat (e + 1 - s)) (concat [piece])"
    by (rule consume_body_data[OF body ws(1)])
  with len have data: "concat (map snd ws) = piece" by simp
  from ws(2) seg(2) have "ws \<noteq> []" by auto
  from tiles_apply_writes[OF ws(2) this seg(1)] ws(4) data
  have "fdata st' = write_at (nat s) piece (fdata st)" by simp
  moreover have "prog_done st' = prog_done st + (e - s + 1)" using ws(3) by simp
  ultimately show ?thesis using run unfolding piece_def by blast
qed

lemma write_at_piece:
  assumes seg: "0 \<le> s" "s \<le> e" "e < int (length res)" and len: "length f = length res"
  defines "g \<equiv> write_at (nat s) (take (nat (e - s + 1)) (drop (nat s) res)) f"
  shows "length g = length res"
    and "k < length res \<Longrightarrow> g ! k = (if s \<le> int k \<and> int k \<le> e then res ! k else f ! k)"
proof -
  define piece where "piece = take (nat (e - s + 1)) (drop (nat s) res)"
  have pl: "length piece = nat (e - s + 1)" using seg by (simp add: piece_def)
  have g: "g = write_at (nat s) piece f" by (simp add: g_def piece_def)
  show "length g = length res" using seg len pl by (simp add: g write_at_length)
  assume k: "k < length res"
  show "g ! k = (if s \<le> int k \<and> int k \<le> e then res ! k else f ! k)"
  proof (cases "s \<le> int k \<and> int k \<le> e")
    case True
    then have "nat s \<le> k" "k < nat s + length piece" using pl seg by linarith+
    then have "g ! k = piece ! (k - nat s)" unfolding g by (rule write_at_nth_inside)
    also have "\<dots> = res ! k"
    proof -
      have a: "k - nat s < nat (e - s + 1)" using True seg by linarith
      have b: "nat s + (k - nat s) = k" using True seg by linarith
      have "piece ! (k - nat s) = drop (nat s) res ! (k - nat s)"
        unfolding piece_def using a by (rule nth_take)
      also have "\<dots> = res ! (nat s + (k - nat s))" using k b by (intro nth_drop) simp
      finally show ?thesis using b by simp
    qed
    finally show ?thesis using True by simp
  next
    case False
    then have "k < nat s \<or> nat s + length piece \<le> k" using pl seg by linarith
    with k len have "g ! k = f ! k" unfolding g by (intro write_at_nth_outside) simp_all
    moreover from False have "(if s \<le> int k \<and> int k \<le> e then res ! k else f ! k) = f ! k"
      by (rule if_not_P)
    ultimately show ?thesis by (simp only:)
  qed
qed


lemma worker_range_server:
  assumes seg: "0 \<le> s" "s \<le> e" "e < int (length res)"
  shows "\<exists>es'. worker url sz cs mr v i s e [range_server res] es = Some (Returned, es')
           \<and> e_file es' = write_at (nat s) (take (nat (e - s + 1)) (drop (nat s) res)) (e_file es)
           \<and> e_meta es' = mark_done url sz cs v i (e_meta es)"
proof -
  from fetch_range_range_server[OF seg, of mr
      "\<lparr>fdata = e_file es, prog_done = e_prog es, writes = [], sleeps = []\<rparr>"]
  obtain st' where
    "fetch_range s e mr [range_server res]
        \<lparr>fdata = e_file es, prog_done = e_prog es, writes = [], sleeps = []\<rparr> = Some (Returned, st')"
    "fdata st' = write_at (nat s) (take (nat (e - s + 1)) (drop (nat s) res)) (e_file es)"
    by auto
  then show ?thesis by (simp add: worker_def)
qed

lemma run_tasks_range_server:
  assumes "\<forall>(i, s, e) \<in> set ts. 0 \<le> s \<and> s \<le> e \<and> e < int (length res)"
    and "length (e_file es) = length res"
  shows "\<exists>es'. run_tasks url sz cs mr v (\<lambda>i. [range_server res]) ts es = Some (Returned, es')
           \<and> length (e_file es') = length res
           \<and> (\<forall>k < length res. e_file es' ! k
                  = (if \<exists>(i, s, e) \<in> set ts. s \<le> int k \<and> int k \<le> e then res ! k
                     else e_file es ! k))
           \<and> done_of (e_meta es') = done_of (e_meta es) \<union> fst ` set ts"
  using assms
proof (induction ts arbitrary: es)
  case Nil
  then show ?case by simp
next
  case (Cons t ts)
  obtain i s e where t: "t = (i, s, e)" by (cases t)
  from Cons.prems(1) t have seg: "0 \<le> s" "s \<le> e" "e < int (length res)"
    and rest: "\<forall>(i, s, e) \<in> set ts. 0 \<le> s \<and> s \<le> e \<and> e < int (length res)" by auto
  from worker_range_server[OF seg, of url sz cs mr v i es] obtain es1 where w:
    "worker url sz cs mr v i s e [range_server res] es = Some (Returned, es1)"
    "e_file es1 = write_at (nat s) (take (nat (e - s + 1)) (drop (nat s) res)) (e_file es)"
    "e_meta es1 = mark_done url sz cs v i (e_meta es)"
    by blast
  from write_at_piece[OF seg Cons.prems(2)] w(2)
  have f1: "length (e_file es1) = length res"
    "\<And>k. k < length res \<Longrightarrow>
       e_file es1 ! k = (if s \<le> int k \<and> int k \<le> e then res ! k else e_file es ! k)"
    by simp_all
  from Cons.IH[OF rest f1(1)] obtain es' where r:
    "run_tasks url sz cs mr v (\<lambda>i. [range_server res]) ts es1 = Some (Returned, es')"
    "length (e_file es') = length res"
    "\<forall>k < length res. e_file es' ! k
        = (if \<exists>(i, s, e) \<in> set ts. s \<le> int k \<and> int k \<le> e then res ! k else e_file es1 ! k)"
    "done_of (e_meta es') = done_of (e_meta es1) \<union> fst ` set ts"
    by blast
  have run: "run_tasks url sz cs mr v (\<lambda>i. [range_server res]) (t # ts) es = Some (Returned, es')"
    using w(1) r(1) t by simp
  have nth: "\<forall>k < length res. e_file es' ! k
        = (if \<exists>(i, s, e) \<in> set (t # ts). s \<le> int k \<and> int k \<le> e then res ! k else e_file es ! k)"
  proof (intro allI impI)
    fix k assume k: "k < length res"
    show "e_file es' ! k
        = (if \<exists>(i, s, e) \<in> set (t # ts). s \<le> int k \<and> int k \<le> e then res ! k else e_file es ! k)"
      using r(3)[rule_format, OF k] f1(2)[OF k] t by auto
  qed
  have "done_of (e_meta es') = done_of (e_meta es) \<union> fst ` set (t # ts)"
    using r(4) w(3) t by (simp add: done_of_mark_done)
  with run r(2) nth show ?case by blast
qed

lemma chained_le: "chained cs pos rs stop \<Longrightarrow> pos \<le> stop"
  by (induction rs arbitrary: pos) (simp, force)

lemma chained_within:
  "chained cs pos rs stop \<Longrightarrow> (s, e) \<in> set rs \<Longrightarrow> pos \<le> s \<and> e < stop"
proof (induction rs arbitrary: pos)
  case Nil
  then show ?case by simp
next
  case (Cons r rs)
  obtain s1 e1 where r: "r = (s1, e1)" by (cases r)
  from Cons.prems(1) r have c: "s1 = pos" "s1 \<le> e1" "chained cs (e1 + 1) rs stop" by auto
  from c(3) have le: "e1 + 1 \<le> stop" by (rule chained_le)
  show ?case
  proof (cases "(s, e) = r")
    case True
    with r c le show ?thesis by simp
  next
    case False
    with Cons.prems(2) have "(s, e) \<in> set rs" by simp
    from Cons.IH[OF c(3) this] c show ?thesis by simp
  qed
qed

lemma chained_covers:
  "chained cs pos rs stop \<Longrightarrow> pos \<le> x \<Longrightarrow> x < stop \<Longrightarrow>
     \<exists>i < length rs. fst (rs ! i) \<le> x \<and> x \<le> snd (rs ! i)"
proof (induction rs arbitrary: pos)
  case Nil
  then show ?case by simp
next
  case (Cons r rs)
  obtain s e where r: "r = (s, e)" by (cases r)
  from Cons.prems(1) r have c: "s = pos" "chained cs (e + 1) rs stop" by auto
  show ?case
  proof (cases "x \<le> e")
    case True
    with c Cons.prems(2) r have "fst ((r # rs) ! 0) \<le> x \<and> x \<le> snd ((r # rs) ! 0)" by simp
    then show ?thesis by blast
  next
    case False
    then have "e + 1 \<le> x" by simp
    from Cons.IH[OF c(2) this Cons.prems(3)] obtain i where
      "i < length rs" "fst (rs ! i) \<le> x \<and> x \<le> snd (rs ! i)" by blast
    then have "Suc i < length (r # rs)" "fst ((r # rs) ! Suc i) \<le> x \<and> x \<le> snd ((r # rs) ! Suc i)"
      by simp_all
    then show ?thesis by blast
  qed
qed

lemma in_tasks:
  "(i, s, e) \<in> set (tasks ranges done) \<longleftrightarrow> i < length ranges \<and> ranges ! i = (s, e) \<and> i \<notin> set done"
proof -
  have "(i, s, e) \<in> set (zip [0 ..< length ranges] ranges)
          \<longleftrightarrow> i < length ranges \<and> ranges ! i = (s, e)"
  proof
    assume "(i, s, e) \<in> set (zip [0 ..< length ranges] ranges)"
    then show "i < length ranges \<and> ranges ! i = (s, e)" by (auto simp: in_set_zip)
  next
    assume a: "i < length ranges \<and> ranges ! i = (s, e)"
    then have "i < length ranges" "[0 ..< length ranges] ! i = i" "ranges ! i = (s, e)" by simp_all
    then show "(i, s, e) \<in> set (zip [0 ..< length ranges] ranges)"
      unfolding in_set_zip by (intro exI[of _ i]) simp
  qed
  then show ?thesis by (simp add: tasks_def)
qed

lemma tasks_indices:
  "map fst (tasks ranges done) = filter (\<lambda>i. i \<notin> set done) [0 ..< length ranges]"
proof -
  have "map fst (filter (\<lambda>(i, s, e). i \<notin> set done) xs) = filter (\<lambda>i. i \<notin> set done) (map fst xs)"
    for xs :: "(nat \<times> int \<times> int) list"
    by (induction xs) auto
  then show ?thesis by (simp add: tasks_def)
qed


text \<open>
  The resume is right when the trusted list is honest. If every trusted index
  denotes a segment of the plan whose bytes in the output file are those of the
  resource, then against a server that honours ranges the run returns with the output
  file equal to the resource, and it creates tasks for exactly the indices that are not
  trusted.
\<close>

lemma resume_completes:
  assumes pos: "0 < sz" "0 < cs"
    and res: "int (length res) = sz" and f: "length f = length res"
    and plan: "plan_ranges sz cs = Some ranges"
    and good: "\<forall>i \<in> set (done_idx md url sz v). i < length ranges
                 \<and> (\<forall>k. fst (ranges ! i) \<le> int k \<and> int k \<le> snd (ranges ! i) \<longrightarrow> f ! k = res ! k)"
  shows "\<exists>md'. download_segmented url sz cs mr v (\<lambda>i. [range_server res])
                   \<lparr>out_file = Some f, meta_file = md\<rparr>
                 = Some (Returned, \<lparr>out_file = Some res, meta_file = md'\<rparr>)"
proof -
  define D where "D = done_idx md url sz v"
  from plan_loop_total[OF pos(2), of 0 sz "[]"] pos(1) plan
  have ch: "chained cs 0 ranges sz" by (auto simp: plan_ranges_def)
  have segs: "\<forall>(i, s, e) \<in> set (tasks ranges D). 0 \<le> s \<and> s \<le> e \<and> e < int (length res)"
  proof (clarify)
    fix i s e assume "(i, s, e) \<in> set (tasks ranges D)"
    then have "i < length ranges" "ranges ! i = (s, e)" by (simp_all add: in_tasks)
    then have mem: "(s, e) \<in> set ranges" by (metis nth_mem)
    from chained_within[OF ch mem] chained_bounded[OF ch mem] res
    show "0 \<le> s \<and> s \<le> e \<and> e < int (length res)" by simp
  qed
  define es where "es = \<lparr>e_file = f, e_meta = md, e_prog = already ranges D\<rparr>"
  have "length (e_file es) = length res" using f by (simp add: es_def)
  from run_tasks_range_server[OF segs this, of url sz cs mr v] obtain es' where r:
    "run_tasks url sz cs mr v (\<lambda>i. [range_server res]) (tasks ranges D) es = Some (Returned, es')"
    "length (e_file es') = length res"
    "\<forall>k < length res. e_file es' ! k
        = (if \<exists>(i, s, e) \<in> set (tasks ranges D). s \<le> int k \<and> int k \<le> e then res ! k
           else e_file es ! k)"
    by blast
  have "e_file es' = res"
  proof (rule nth_equalityI)
    show "length (e_file es') = length res" by (rule r(2))
  next
    fix k assume "k < length (e_file es')"
    with r(2) have k: "k < length res" by simp
    show "e_file es' ! k = res ! k"
    proof (cases "\<exists>(i, s, e) \<in> set (tasks ranges D). s \<le> int k \<and> int k \<le> e")
      case True
      with r(3) k show ?thesis by simp
    next
      case False
      with r(3) k have old: "e_file es' ! k = f ! k" by (simp add: es_def)
      from k res have "0 \<le> int k" "int k < sz" by simp_all
      from chained_covers[OF ch this] obtain i where i:
        "i < length ranges" "fst (ranges ! i) \<le> int k" "int k \<le> snd (ranges ! i)" by blast
      have "i \<in> set D"
      proof (rule ccontr)
        assume "i \<notin> set D"
        with i(1) have "(i, fst (ranges ! i), snd (ranges ! i)) \<in> set (tasks ranges D)"
          unfolding in_tasks by simp
        with i(2,3) False show False by blast
      qed
      with good i(2,3) have "f ! k = res ! k" unfolding D_def by blast
      with old show ?thesis by simp
    qed
  qed
  moreover have "\<not> (\<exists>i \<in> set D. length ranges \<le> i)" using good unfolding D_def by fastforce
  ultimately show ?thesis
    using plan r(1) by (simp add: download_segmented_def preallocate_def D_def es_def)
qed

end
